theory Spec2Isabelle
  imports Main "HOL-Library.Multiset"
begin

section \<open>Data model\<close>

text \<open>
  The library is Go. A Go \<open>string\<close> is a sequence of bytes, \<open>len(s)\<close> counts bytes and
  \<open>s[i]\<close> is a byte: it is modelled by \<open>string\<close> (a list of 8-bit characters). Go's
  \<open>int\<close> is modelled by the unbounded \<open>int\<close>: every integer of the library is a count of
  tokens, a count of words or a word length, all far below \<open>2 ^ 63\<close>. Loop indices,
  which never go below zero, are \<open>nat\<close>.

  A run-time panic of Go and a loop that never returns are values of the type
  \<open>abort\<close>; a function that can fail returns \<open>abort + 'a\<close>.
\<close>

datatype abort = IndexOutOfRange | SliceBoundsOutOfRange | MakeSliceCapOutOfRange | NoReturn

record WordTuple =
  Word :: string
  Count :: int

type_synonym ByCount = "WordTuple list"

record Concordance =
  Counts :: "string \<rightharpoonup> int"
  Total :: int
  Unique :: int
  MostUsed :: ByCount
  LengthHistogram :: "int list"

section \<open>Scrubbing\<close>

text \<open>\<open>inRange\<close> and \<open>alphaChar\<close> work on a \<open>uint8\<close>, here the byte value of a character.\<close>

definition inRange :: "nat \<Rightarrow> nat \<Rightarrow> nat \<Rightarrow> bool" where
  "inRange n lo hi \<longleftrightarrow> n \<ge> lo \<and> n \<le> hi"

definition alphaChar :: "char \<Rightarrow> bool" where
  "alphaChar r \<longleftrightarrow> inRange (of_char r) 65 90 \<or> inRange (of_char r) 97 122"

text \<open>
  The first loop of \<open>ScrubWord\<close>, started at index \<open>i\<close>. It returns \<open>anyAlpha\<close>,
  \<open>minAlpha\<close> and the index \<open>i\<close> at which it stopped: on \<open>break\<close> the index is not
  advanced, so the second loop starts on the first alphabetic byte.
\<close>

function firstAlpha :: "string \<Rightarrow> nat \<Rightarrow> bool \<times> nat \<times> nat" where
  "firstAlpha s i =
     (if i < length s
      then (if alphaChar (s ! i) then (True, i, i) else firstAlpha s (i + 1))
      else (False, 0, i))"
  by pat_completeness auto
termination
  by (relation "measure (\<lambda>(s, i). length s - i)") auto

text \<open>The second loop, with its variables \<open>i\<close>, \<open>anyAlpha\<close> and \<open>maxAlpha\<close>.\<close>

function lastAlpha :: "string \<Rightarrow> nat \<Rightarrow> bool \<Rightarrow> nat \<Rightarrow> bool \<times> nat" where
  "lastAlpha s i anyAlpha maxAlpha =
     (if i < length s
      then (if alphaChar (s ! i) then lastAlpha s (i + 1) True i
            else lastAlpha s (i + 1) anyAlpha maxAlpha)
      else (anyAlpha, maxAlpha))"
  by pat_completeness auto
termination
  by (relation "measure (\<lambda>(s, i, a, m). length s - i)") auto

text \<open>The slice expression \<open>s[lo:hi]\<close> on a string panics unless \<open>lo \<le> hi \<le> len(s)\<close>.\<close>

definition substr :: "string \<Rightarrow> nat \<Rightarrow> nat \<Rightarrow> abort + string" where
  "substr s lo hi =
     (if lo \<le> hi \<and> hi \<le> length s then Inr (take (hi - lo) (drop lo s))
      else Inl SliceBoundsOutOfRange)"

definition ScrubWord :: "string \<Rightarrow> abort + string" where
  "ScrubWord s =
     (case firstAlpha s 0 of
        (anyAlpha, minAlpha, i) \<Rightarrow>
          (case lastAlpha s i anyAlpha 0 of
             (anyAlpha', maxAlpha) \<Rightarrow>
               if anyAlpha' then substr s minAlpha (maxAlpha + 1) else Inr ''''))"

section \<open>Case folding\<close>

text \<open>
  \<open>strings.ToLower\<close> belongs to the Go library, not to this repository; it is modelled
  from its documentation. A string of ASCII bytes only is folded byte by byte
  (\<open>c += 'a' - 'A'\<close> for \<open>'A' \<le> c \<le> 'Z'\<close>). Any other string goes through
  \<open>strings.Map(unicode.ToLower, s)\<close>: it is decoded as UTF-8 (an invalid byte decodes to
  \<open>U+FFFD\<close>, one byte wide), every code point is mapped, and the result is encoded again.
\<close>

definition lowerByte :: "char \<Rightarrow> char" where
  "lowerByte c = (if inRange (of_char c) 65 90 then char_of (of_char c + (32::nat)) else c)"

definition RuneError :: nat where
  "RuneError = 0xFFFD"

definition contByte :: "nat \<Rightarrow> bool" where
  "contByte b \<longleftrightarrow> 0x80 \<le> b \<and> b \<le> 0xBF"

text \<open>The range allowed for the second byte, which excludes overlong forms and surrogates.\<close>

definition secondLo :: "nat \<Rightarrow> nat" where
  "secondLo b0 = (if b0 = 0xE0 then 0xA0 else if b0 = 0xF0 then 0x90 else 0x80)"

definition secondHi :: "nat \<Rightarrow> nat" where
  "secondHi b0 = (if b0 = 0xED then 0x9F else if b0 = 0xF4 then 0x8F else 0xBF)"

text \<open>\<open>utf8.DecodeRuneInString\<close>: the first code point of a byte sequence and its width.\<close>

fun decodeRune :: "nat list \<Rightarrow> nat \<times> nat" where
  "decodeRune [] = (RuneError, 0)"
| "decodeRune (b0 # bs) =
     (if b0 < 0x80 then (b0, 1)
      else if 0xC2 \<le> b0 \<and> b0 \<le> 0xDF then
        (case bs of
           b1 # _ \<Rightarrow>
             if contByte b1 then ((b0 mod 32) * 64 + b1 mod 64, 2) else (RuneError, 1)
         | _ \<Rightarrow> (RuneError, 1))
      else if 0xE0 \<le> b0 \<and> b0 \<le> 0xEF then
        (case bs of
           b1 # b2 # _ \<Rightarrow>
             if secondLo b0 \<le> b1 \<and> b1 \<le> secondHi b0 \<and> contByte b2
             then ((b0 mod 16) * 4096 + (b1 mod 64) * 64 + b2 mod 64, 3)
             else (RuneError, 1)
         | _ \<Rightarrow> (RuneError, 1))
      else if 0xF0 \<le> b0 \<and> b0 \<le> 0xF4 then
        (case bs of
           b1 # b2 # b3 # _ \<Rightarrow>
             if secondLo b0 \<le> b1 \<and> b1 \<le> secondHi b0 \<and> contByte b2 \<and> contByte b3
             then ((b0 mod 8) * 262144 + (b1 mod 64) * 4096 + (b2 mod 64) * 64 + b3 mod 64, 4)
             else (RuneError, 1)
         | _ \<Rightarrow> (RuneError, 1))
      else (RuneError, 1))"

text \<open>
  The code points of a byte sequence, in order (\<open>for _, c := range s\<close>). The first argument
  counts the bytes still to be skipped because they belong to the code point just decoded.
\<close>

fun decodeRunes :: "nat \<Rightarrow> nat list \<Rightarrow> nat list" where
  "decodeRunes skip [] = []"
| "decodeRunes skip (b # bs) =
     (if skip > 0 then decodeRunes (skip - 1) bs
      else (case decodeRune (b # bs) of (r, width) \<Rightarrow> r # decodeRunes (width - 1) bs))"

text \<open>\<open>utf8.EncodeRune\<close>; a surrogate or a value above \<open>U+10FFFF\<close> is encoded as \<open>U+FFFD\<close>.\<close>

definition encodeRune :: "nat \<Rightarrow> nat list" where
  "encodeRune r =
     (if r < 0x80 then [r]
      else if r < 0x800 then [0xC0 + r div 64, 0x80 + r mod 64]
      else if (0xD800 \<le> r \<and> r \<le> 0xDFFF) \<or> r > 0x10FFFF then [0xEF, 0xBF, 0xBD]
      else if r < 0x10000 then [0xE0 + r div 4096, 0x80 + (r div 64) mod 64, 0x80 + r mod 64]
      else [0xF0 + r div 262144, 0x80 + (r div 4096) mod 64, 0x80 + (r div 64) mod 64,
            0x80 + r mod 64])"

text \<open>
  \<open>unicode.ToLower\<close> on a few ranges of Go's case table: ASCII, Latin-1, and the three code
  points \<open>U+0130\<close> (capital I with dot above, lower case \<open>i\<close>), \<open>U+212A\<close> (Kelvin sign,
  lower case \<open>k\<close>) and \<open>U+212B\<close> (Angstrom sign, lower case \<open>U+00E5\<close>). Go's table has many
  more ranges; code points outside the ranges listed here are left unchanged by this
  model, and the only statements below that depend on what a code point is folded to are
  about ASCII strings and about the Kelvin sign.
\<close>

definition unicode_ToLower :: "nat \<Rightarrow> nat" where
  "unicode_ToLower r =
     (if 0x41 \<le> r \<and> r \<le> 0x5A then r + 32
      else if 0xC0 \<le> r \<and> r \<le> 0xDE \<and> r \<noteq> 0xD7 then r + 32
      else if r = 0x130 then 0x69
      else if r = 0x212A then 0x6B
      else if r = 0x212B then 0xE5
      else r)"

definition strings_Map :: "(nat \<Rightarrow> nat) \<Rightarrow> string \<Rightarrow> string" where
  "strings_Map mapping s =
     map char_of (concat (map (\<lambda>c. encodeRune (mapping c)) (decodeRunes 0 (map of_char s))))"

definition ToLower :: "string \<Rightarrow> string" where
  "ToLower s =
     (if list_all (\<lambda>c. of_char c < (128::nat)) s then map lowerByte s
      else strings_Map unicode_ToLower s)"

section \<open>Counting words\<close>

text \<open>
  The scanner is modelled by the list of tokens that \<open>scanner.Scan()\<close> delivers, in
  order, once it splits on words: a fresh scanner, on which \<open>Split\<close> is allowed. A read
  error or a token above the scanner's size limit ends the loop like the end of the
  input does, since \<open>WordCount\<close> does not look at \<open>scanner.Err()\<close>; the list then holds
  the tokens delivered before. \<open>scrubbed\<close> is the word that one iteration of the loop of
  \<open>WordCount\<close> computes from the token; \<open>tot\<close> is the variable \<open>total\<close>.
\<close>

definition scrubbed :: "bool \<Rightarrow> string \<Rightarrow> abort + string" where
  "scrubbed caseSensitive token =
     (if caseSensitive then ScrubWord token else ScrubWord (ToLower token))"

text \<open>\<open>m[word]++\<close>: a missing key reads as zero.\<close>

definition incr :: "(string \<rightharpoonup> int) \<Rightarrow> string \<Rightarrow> (string \<rightharpoonup> int)" where
  "incr m word = m(word \<mapsto> (case m word of None \<Rightarrow> 0 | Some n \<Rightarrow> n) + 1)"

fun WordCount_loop ::
  "string list \<Rightarrow> bool \<Rightarrow> (string \<rightharpoonup> int) \<Rightarrow> int \<Rightarrow> abort + ((string \<rightharpoonup> int) \<times> int)" where
  "WordCount_loop [] caseSensitive m tot = Inr (m, tot)"
| "WordCount_loop (token # scanner) caseSensitive m tot =
     (case scrubbed caseSensitive token of
        Inl e \<Rightarrow> Inl e
      | Inr word \<Rightarrow> WordCount_loop scanner caseSensitive (incr m word) (tot + 1))"

definition WordCount :: "string list \<Rightarrow> bool \<Rightarrow> abort + ((string \<rightharpoonup> int) \<times> int)" where
  "WordCount scanner caseSensitive =
     (case WordCount_loop scanner caseSensitive Map.empty 0 of
        Inl e \<Rightarrow> Inl e
      | Inr (m, tot) \<Rightarrow> Inr (m('''' := None), tot))"

section \<open>Building the concordance\<close>

text \<open>
  \<open>for k, v := range c.Counts\<close> visits every entry of the map once, in an order that
  the Go run time chooses. The order is a parameter of the model: \<open>process\<close> takes the
  list of entries in the order of the visit, and \<open>range_order m entries\<close> says that the
  list is such an enumeration of the map \<open>m\<close>.
\<close>

definition range_order :: "(string \<rightharpoonup> int) \<Rightarrow> (string \<times> int) list \<Rightarrow> bool" where
  "range_order m entries \<longleftrightarrow> distinct (map fst entries) \<and> map_of entries = m"

text \<open>
  The loop \<open>for newlen < wordlen { newlen *= 2 }\<close>. It does not return when it is entered
  with \<open>newlen = 0\<close>, so it is a partial function: \<open>None\<close> stands for no result.
\<close>

partial_function (option) newlen_loop :: "nat \<Rightarrow> nat \<Rightarrow> nat option" where
  [code]: "newlen_loop newlen wordlen =
     (if newlen < wordlen then newlen_loop (newlen * 2) wordlen else Some newlen)"

text \<open>
  \<open>for i, v := range c.LengthHistogram { newHist[i] = v }\<close>: the index stays below the
  length of the old histogram.
\<close>

definition copyHist :: "int list \<Rightarrow> int list \<Rightarrow> abort + int list" where
  "copyHist hist newHist =
     fold (\<lambda>i r. case r of
                   Inl e \<Rightarrow> Inl e
                 | Inr nh \<Rightarrow> if i < length nh then Inr (nh[i := hist ! i])
                             else Inl IndexOutOfRange)
          [0..<length hist] (Inr newHist)"

text \<open>\<open>c.LengthHistogram[wordlen]++\<close> panics when the index is not below the length.\<close>

definition histIncr :: "int list \<Rightarrow> nat \<Rightarrow> abort + int list" where
  "histIncr hist wordlen =
     (if wordlen < length hist then Inr (hist[wordlen := hist ! wordlen + 1])
      else Inl IndexOutOfRange)"

text \<open>
  The body of the loop of \<open>process\<close> for one entry \<open>(k, v)\<close>. The value of \<open>newlen\<close> is
  computed and then not used: the new histogram is made with
  \<open>2 * len(c.LengthHistogram)\<close> slots, as in the source.
\<close>

definition process_step :: "Concordance \<Rightarrow> string \<times> int \<Rightarrow> abort + Concordance" where
  "process_step c kv =
     (case kv of (k, v) \<Rightarrow>
        let c1 = c\<lparr>MostUsed := MostUsed c @ [\<lparr>Word = k, Count = v\<rparr>]\<rparr>;
            wordlen = length k
        in if wordlen \<ge> length (LengthHistogram c1) then
             (case newlen_loop (2 * length (LengthHistogram c1)) wordlen of
                None \<Rightarrow> Inl NoReturn
              | Some newlen \<Rightarrow>
                  (case copyHist (LengthHistogram c1)
                          (replicate (2 * length (LengthHistogram c1)) 0) of
                     Inl e \<Rightarrow> Inl e
                   | Inr newHist \<Rightarrow>
                       (case histIncr newHist wordlen of
                          Inl e \<Rightarrow> Inl e
                        | Inr h \<Rightarrow> Inr (c1\<lparr>LengthHistogram := h\<rparr>))))
           else
             (case histIncr (LengthHistogram c1) wordlen of
                Inl e \<Rightarrow> Inl e
              | Inr h \<Rightarrow> Inr (c1\<lparr>LengthHistogram := h\<rparr>)))"

fun process_loop :: "(string \<times> int) list \<Rightarrow> Concordance \<Rightarrow> abort + Concordance" where
  "process_loop [] c = Inr c"
| "process_loop (kv # entries) c =
     (case process_step c kv of
        Inl e \<Rightarrow> Inl e
      | Inr c' \<Rightarrow> process_loop entries c')"

subsection \<open>Sorting\<close>

text \<open>
  \<open>ByCount\<close> implements \<open>sort.Interface\<close>; \<open>Less(i, j)\<close> compares the elements at the two
  indices, here given as the elements themselves. \<open>sort.Reverse\<close> swaps the arguments of
  \<open>Less\<close>. \<open>sort.Sort\<close> belongs to the Go library: it is documented to sort by \<open>Less\<close>
  and not to be stable. It is modelled by insertion sort driven by the \<open>Less\<close> it is
  given; no statement below is about the order of two entries with the same count.
\<close>

definition ByCount_Less :: "WordTuple \<Rightarrow> WordTuple \<Rightarrow> bool" where
  "ByCount_Less a b \<longleftrightarrow> Count a < Count b"

definition sort_Reverse :: "('a \<Rightarrow> 'a \<Rightarrow> bool) \<Rightarrow> 'a \<Rightarrow> 'a \<Rightarrow> bool" where
  "sort_Reverse lt a b \<longleftrightarrow> lt b a"

fun sort_insert :: "('a \<Rightarrow> 'a \<Rightarrow> bool) \<Rightarrow> 'a \<Rightarrow> 'a list \<Rightarrow> 'a list" where
  "sort_insert lt x [] = [x]"
| "sort_insert lt x (y # ys) =
     (if lt x y then x # y # ys else y # sort_insert lt x ys)"

definition sort_Sort :: "('a \<Rightarrow> 'a \<Rightarrow> bool) \<Rightarrow> 'a list \<Rightarrow> 'a list" where
  "sort_Sort lt xs = foldl (\<lambda>acc x. sort_insert lt x acc) [] xs"

subsection \<open>Trimming and truncating\<close>

text \<open>
  A slice expression \<open>s[:n]\<close> panics unless \<open>0 \<le> n \<le> cap(s)\<close>. The model keeps no
  capacity: it takes a slice to be as long as its capacity. That holds for both slices
  of a concordance when \<open>NewConcordance\<close> reslices them: the histogram comes from
  \<open>make([]int, n)\<close>, and \<open>MostUsed\<close> is made with capacity \<open>Unique\<close> and receives one
  element for each of the \<open>Unique\<close> keys. (A \<open>MostUsed\<close> that was truncated before has
  spare capacity; no statement below is about reslicing such a slice to a larger \<open>n\<close>.)
\<close>

definition sliceTo :: "'a list \<Rightarrow> int \<Rightarrow> abort + 'a list" where
  "sliceTo s n =
     (if 0 \<le> n \<and> n \<le> int (length s) then Inr (take (nat n) s)
      else Inl SliceBoundsOutOfRange)"

text \<open>The loop of \<open>trimHist\<close>: \<open>mx\<close> is the variable \<open>max\<close>, \<open>i\<close> the index of the next slot.\<close>

fun trimHist_loop :: "int list \<Rightarrow> nat \<Rightarrow> nat \<Rightarrow> nat" where
  "trimHist_loop [] i mx = mx"
| "trimHist_loop (v # hist) i mx = trimHist_loop hist (i + 1) (if v > 0 then i else mx)"

definition trimHist :: "Concordance \<Rightarrow> abort + Concordance" where
  "trimHist c =
     (let mx = trimHist_loop (LengthHistogram c) 0 0
      in case sliceTo (LengthHistogram c) (int mx + 1) of
           Inl e \<Rightarrow> Inl e
         | Inr h \<Rightarrow> Inr (c\<lparr>LengthHistogram := h\<rparr>))"

text \<open>
  \<open>process\<close>. \<open>make([]WordTuple, 0, c.Unique)\<close> panics when the capacity is negative;
  \<open>NewConcordance\<close> calls \<open>process\<close> with \<open>Unique = len(c.Counts)\<close>.
\<close>

definition process :: "(string \<times> int) list \<Rightarrow> Concordance \<Rightarrow> abort + Concordance" where
  "process entries c =
     (if Unique c < 0 then Inl MakeSliceCapOutOfRange
      else
        (case process_loop entries (c\<lparr>LengthHistogram := replicate 64 0, MostUsed := []\<rparr>) of
           Inl e \<Rightarrow> Inl e
         | Inr c1 \<Rightarrow>
             trimHist (c1\<lparr>MostUsed := sort_Sort (sort_Reverse ByCount_Less) (MostUsed c1)\<rparr>)))"

text \<open>\<open>TruncateTopWords\<close> of the first variant of the library (lines 173 to 177).\<close>

definition TruncateTopWords :: "Concordance \<Rightarrow> int \<Rightarrow> abort + Concordance" where
  "TruncateTopWords c n =
     (if n > 0 \<and> int (length (MostUsed c)) > n then
        (case sliceTo (MostUsed c) n of
           Inl e \<Rightarrow> Inl e
         | Inr s \<Rightarrow> Inr (c\<lparr>MostUsed := s\<rparr>))
      else Inr c)"

text \<open>
  \<open>NewConcordance\<close> of the first variant. \<open>&Concordance{}\<close> has a nil map, zero counters
  and nil slices.
\<close>

definition NewConcordance ::
  "string list \<Rightarrow> bool \<Rightarrow> int \<Rightarrow> (string \<times> int) list \<Rightarrow> abort + Concordance" where
  "NewConcordance scanner caseSensitive topWords entries =
     (case WordCount scanner caseSensitive of
        Inl e \<Rightarrow> Inl e
      | Inr (m, tot) \<Rightarrow>
          (case process entries
                  \<lparr>Counts = m, Total = tot, Unique = int (card (dom m)),
                   MostUsed = [], LengthHistogram = []\<rparr> of
             Inl e \<Rightarrow> Inl e
           | Inr c \<Rightarrow> TruncateTopWords c topWords))"

subsection \<open>The second variant\<close>

text \<open>
  The second variant of the library (after the separator, lines 178 to 340) has the
  same text as the first for every function but \<open>TruncateTopWords\<close>, up to comments, the
  name \<open>scrubWord\<close> and the spelling of the parameter \<open>topwords\<close>. Its
  \<open>TruncateTopWords\<close> reslices without a test.
\<close>

definition TruncateTopWords2 :: "Concordance \<Rightarrow> int \<Rightarrow> abort + Concordance" where
  "TruncateTopWords2 c n =
     (case sliceTo (MostUsed c) n of
        Inl e \<Rightarrow> Inl e
      | Inr s \<Rightarrow> Inr (c\<lparr>MostUsed := s\<rparr>))"

definition NewConcordance2 ::
  "string list \<Rightarrow> bool \<Rightarrow> int \<Rightarrow> (string \<times> int) list \<Rightarrow> abort + Concordance" where
  "NewConcordance2 scanner caseSensitive topwords entries =
     (case WordCount scanner caseSensitive of
        Inl e \<Rightarrow> Inl e
      | Inr (m, tot) \<Rightarrow>
          (case process entries
                  \<lparr>Counts = m, Total = tot, Unique = int (card (dom m)),
                   MostUsed = [], LengthHistogram = []\<rparr> of
             Inl e \<Rightarrow> Inl e
           | Inr c \<Rightarrow> TruncateTopWords2 c topwords))"

section \<open>What the specification calls an alphabetic character\<close>

text \<open>The ASCII letters, \<open>A\<close> to \<open>Z\<close> and \<open>a\<close> to \<open>z\<close>, written out.\<close>

definition ascii_letter :: "char \<Rightarrow> bool" where
  "ascii_letter c \<longleftrightarrow> c \<in> set ''ABCDEFGHIJKLMNOPQRSTUVWXYZabcdefghijklmnopqrstuvwxyz''"

text \<open>
  Stripping the characters that are not alphabetic from both ends of a string, as a
  list function; \<open>ScrubWord\<close> is shown below to compute it.
\<close>

definition trim :: "string \<Rightarrow> string" where
  "trim s = rev (dropWhile (\<lambda>c. \<not> alphaChar c) (rev (dropWhile (\<lambda>c. \<not> alphaChar c) s)))"

text \<open>The word that \<open>WordCount\<close> counts for a token, as a list function.\<close>

definition word_of :: "bool \<Rightarrow> string \<Rightarrow> string" where
  "word_of caseSensitive token = trim (if caseSensitive then token else ToLower token)"

section \<open>Definitions used in the proofs\<close>

text \<open>The count that a histogram records for the length \<open>i\<close>: zero beyond its end.\<close>

definition slot :: "int list \<Rightarrow> nat \<Rightarrow> int" where
  "slot hist i = (if i < length hist then hist ! i else 0)"

text \<open>
  What one step of \<open>process\<close> does to the histogram when it does not panic: \<open>grown\<close> is
  the histogram that the increment is applied to, \<open>stepHist\<close> the histogram after it.
\<close>

definition grown :: "int list \<Rightarrow> nat \<Rightarrow> int list" where
  "grown hist wordlen =
     (if wordlen < length hist then hist else hist @ replicate (length hist) 0)"

definition stepHist :: "int list \<Rightarrow> nat \<Rightarrow> int list" where
  "stepHist hist wordlen = (grown hist wordlen)[wordlen := grown hist wordlen ! wordlen + 1]"

definition tuple_of :: "string \<times> int \<Rightarrow> WordTuple" where
  "tuple_of kv = \<lparr>Word = fst kv, Count = snd kv\<rparr>"

text \<open>
  A small corpus for the concrete runs below, an order in which the run time may visit
  its two words, and the concordance that the first variant builds from them.
\<close>

definition corpus_b :: "string list" where
  "corpus_b = [''b'', ''aa,'', ''B'', ''...'']"

definition entries_b :: "(string \<times> int) list" where
  "entries_b = [(''aa'', 1), (''b'', 2)]"

definition concordance_b :: Concordance where
  "concordance_b =
     \<lparr>Counts = [''aa'' \<mapsto> 1, ''b'' \<mapsto> 2], Total = 4, Unique = 2,
      MostUsed = [\<lparr>Word = ''b'', Count = 2\<rparr>, \<lparr>Word = ''aa'', Count = 1\<rparr>],
      LengthHistogram = [0, 1, 1]\<rparr>"

text \<open>A word of 70 letters.\<close>

definition long70 :: string where
  "long70 = replicate 70 CHR ''a''"

section \<open>Properties of scrubbing\<close>

declare firstAlpha.simps [simp del] lastAlpha.simps [simp del]

lemma alphaChar_letter: "alphaChar c = ascii_letter c"
  by (cases c) (simp add: alphaChar_def inRange_def ascii_letter_def)

lemma firstAlpha_eq:
  "i \<le> length s \<Longrightarrow> firstAlpha s i =
     (let d = dropWhile (\<lambda>c. \<not> alphaChar c) (drop i s) in
      if d = [] then (False, 0, length s)
      else (True, length s - length d, length s - length d))"
proof (induction s i rule: firstAlpha.induct)
  case (1 s i)
  show ?case
  proof (cases "i < length s")
    case True
    then have d: "drop i s = s ! i # drop (i + 1) s" by (simp add: Cons_nth_drop_Suc)
    show ?thesis
    proof (cases "alphaChar (s ! i)")
      case True
      with \<open>i < length s\<close> d show ?thesis by (subst firstAlpha.simps) (simp add: Let_def)
    next
      case False
      with \<open>i < length s\<close> d "1.IH" show ?thesis
        by (subst firstAlpha.simps) (simp add: Let_def)
    qed
  next
    case False
    with "1.prems" show ?thesis by (subst firstAlpha.simps) simp
  qed
qed

lemma lastAlpha_eq:
  "i \<le> length s \<Longrightarrow> lastAlpha s i a m =
     (if \<exists>c\<in>set (drop i s). alphaChar c
      then (True, length s - 1 - length (takeWhile (\<lambda>c. \<not> alphaChar c) (rev (drop i s))))
      else (a, m))"
proof (induction s i a m rule: lastAlpha.induct)
  case (1 s i a m)
  let ?na = "\<lambda>c. \<not> alphaChar c"
  show ?case
  proof (cases "i < length s")
    case True
    then have d: "drop i s = s ! i # drop (i + 1) s" by (simp add: Cons_nth_drop_Suc)
    let ?r = "drop (i + 1) s"
    show ?thesis
    proof (cases "alphaChar (s ! i)")
      case al: True
      have step: "lastAlpha s i a m = lastAlpha s (i + 1) True i"
        using True al by (subst lastAlpha.simps) simp
      show ?thesis
      proof (cases "\<exists>c\<in>set ?r. alphaChar c")
        case True
        then have "takeWhile ?na (rev ?r @ [s ! i]) = takeWhile ?na (rev ?r)"
          by (auto simp: takeWhile_append1)
        with True al \<open>i < length s\<close> d "1.IH"(1) step show ?thesis by simp
      next
        case False
        then have "takeWhile ?na (rev ?r @ [s ! i]) = rev ?r"
          using al by (subst takeWhile_append2) auto
        with False al \<open>i < length s\<close> d "1.IH"(1) step show ?thesis by simp
      qed
    next
      case nal: False
      have step: "lastAlpha s i a m = lastAlpha s (i + 1) a m"
        using True nal by (subst lastAlpha.simps) simp
      show ?thesis
      proof (cases "\<exists>c\<in>set ?r. alphaChar c")
        case True
        then have "takeWhile ?na (rev ?r @ [s ! i]) = takeWhile ?na (rev ?r)"
          by (auto simp: takeWhile_append1)
        with True nal \<open>i < length s\<close> d "1.IH"(2) step show ?thesis by simp
      next
        case False
        with nal \<open>i < length s\<close> d "1.IH"(2) step show ?thesis by simp
      qed
    qed
  next
    case False
    with "1.prems" show ?thesis by (subst lastAlpha.simps) simp
  qed
qed

text \<open>\<open>ScrubWord\<close> never panics, and it computes \<open>trim\<close>.\<close>

lemma ScrubWord_trim: "ScrubWord s = Inr (trim s)"
proof (cases "\<exists>c\<in>set s. alphaChar c")
  case False
  then have dw: "dropWhile (\<lambda>c. \<not> alphaChar c) s = []" by simp
  from False show ?thesis
    by (simp add: ScrubWord_def firstAlpha_eq lastAlpha_eq trim_def dw)
next
  case True
  let ?na = "\<lambda>c. \<not> alphaChar c"
  let ?d = "dropWhile ?na s"
  let ?p = "takeWhile ?na s"
  let ?t = "takeWhile ?na (rev s)"
  have dne: "?d \<noteq> []" using True by (simp add: dropWhile_eq_Nil_conv)
  have s: "s = ?p @ ?d" by simp
  have dal: "\<exists>c\<in>set ?d. alphaChar c"
    using dne hd_dropWhile[of ?na s] by (metis list.set_sel(1))
  have i: "length s - length ?d = length ?p"
    by (metis add_diff_cancel_right' length_append s)
  have fa: "firstAlpha s 0 = (True, length ?p, length ?p)"
    using dne i by (simp add: firstAlpha_eq Let_def)
  have dd: "drop (length ?p) s = ?d" by (simp add: dropWhile_eq_drop)
  have td: "takeWhile ?na (rev ?d) = ?t"
  proof -
    have "rev s = rev ?d @ rev ?p" by (metis rev_append s)
    moreover have "\<exists>c\<in>set (rev ?d). \<not> ?na c" using dal by simp
    ultimately show ?thesis by (metis takeWhile_append1)
  qed
  have la: "lastAlpha s (length ?p) True 0 = (True, length s - 1 - length ?t)"
    using dal length_takeWhile_le[of ?na s] by (simp add: lastAlpha_eq dd td)
  have tl: "length ?t < length ?d"
  proof -
    have "length (takeWhile ?na (rev ?d)) \<le> length (rev ?d)" by (rule length_takeWhile_le)
    moreover have "takeWhile ?na (rev ?d) \<noteq> rev ?d"
      using dal by (metis (mono_tags, lifting) set_rev set_takeWhileD)
    ultimately have "length (takeWhile ?na (rev ?d)) < length (rev ?d)"
      by (metis le_neq_implies_less takeWhile_eq_take take_all_iff order_refl length_rev)
    then show ?thesis by (simp add: td)
  qed
  have ls: "length s = length ?p + length ?d" by (metis length_append s)
  have "dropWhile ?na (rev ?d) = drop (length (takeWhile ?na (rev ?d))) (rev ?d)"
    by (rule dropWhile_eq_drop)
  then have "trim s = rev (drop (length ?t) (rev ?d))"
    by (simp only: trim_def td)
  also have "\<dots> = take (length ?d - length ?t) ?d" by (simp add: rev_drop)
  finally have tr: "trim s = take (length ?d - length ?t) ?d" .
  have "ScrubWord s = substr s (length ?p) (length s - 1 - length ?t + 1)"
    by (simp add: ScrubWord_def fa la)
  also have "\<dots> = substr s (length ?p) (length ?p + (length ?d - length ?t))"
    using tl ls by (intro arg_cong[where f = "substr s (length ?p)"]) arith
  also have "\<dots> = Inr (take (length ?d - length ?t) ?d)"
    using ls by (simp add: substr_def dd)
  finally show ?thesis by (simp add: tr)
qed

lemma trim_no_alpha:
  assumes "\<forall>c\<in>set s. \<not> alphaChar c"
  shows "trim s = []"
  using assms by (auto simp: trim_def dest: set_dropWhileD)

lemma trim_decomp:
  assumes "\<exists>c\<in>set s. alphaChar c"
  shows "\<exists>pre suf. s = pre @ trim s @ suf \<and> (\<forall>c\<in>set pre. \<not> alphaChar c) \<and>
           (\<forall>c\<in>set suf. \<not> alphaChar c) \<and> trim s \<noteq> [] \<and>
           alphaChar (hd (trim s)) \<and> alphaChar (last (trim s))"
proof -
  let ?na = "\<lambda>c. \<not> alphaChar c"
  let ?d = "dropWhile ?na s"
  let ?e = "dropWhile ?na (rev ?d)"
  have dne: "?d \<noteq> []" using assms by (simp add: dropWhile_eq_Nil_conv)
  then have hd: "alphaChar (hd ?d)" using hd_dropWhile[of ?na s] by simp
  then have "\<exists>c\<in>set (rev ?d). alphaChar c" using dne by (metis list.set_sel(1) set_rev)
  then have ene: "?e \<noteq> []" by (simp add: dropWhile_eq_Nil_conv)
  then have he: "alphaChar (hd ?e)" using hd_dropWhile[of ?na "rev ?d"] by simp
  have t: "trim s = rev ?e" by (simp add: trim_def)
  have s1: "s = takeWhile ?na s @ ?d" by simp
  have "rev ?d = takeWhile ?na (rev ?d) @ ?e" by simp
  then have de: "?d = rev ?e @ rev (takeWhile ?na (rev ?d))" by (metis rev_append rev_rev_ident)
  with s1 have s2: "s = takeWhile ?na s @ trim s @ rev (takeWhile ?na (rev ?d))"
    by (simp add: t)
  have p: "\<forall>c\<in>set (takeWhile ?na s). \<not> alphaChar c" by (auto dest: set_takeWhileD)
  have q: "\<forall>c\<in>set (rev (takeWhile ?na (rev ?d))). \<not> alphaChar c"
    by (auto dest: set_takeWhileD)
  have l: "alphaChar (last (trim s))" using he ene by (simp add: t last_rev)
  have "hd (trim s) = hd ?d"
    using de ene by (metis hd_append2 rev_is_Nil_conv t)
  with hd have h: "alphaChar (hd (trim s))" by simp
  from s2 p q l h ene t show ?thesis by (metis rev_is_Nil_conv)
qed



text \<open>
  C7. \<open>ScrubWord\<close> returns a word for every string, with no panic. It returns the empty
  word when the string has no ASCII letter. Otherwise the string splits into a prefix
  without letters, the word returned, and a suffix without letters, where the word
  starts and ends with a letter: the word is the substring from the first to the last
  letter, with everything between them kept. The five examples of the specification
  hold.
\<close>

theorem ScrubWord_first_to_last_letter:
  "(\<exists>w. ScrubWord s = Inr w) \<and>
   ((\<forall>c\<in>set s. \<not> ascii_letter c) \<longrightarrow> ScrubWord s = Inr '''') \<and>
   ((\<exists>c\<in>set s. ascii_letter c) \<longrightarrow>
      (\<exists>pre w suf. s = pre @ w @ suf \<and> ScrubWord s = Inr w \<and>
         (\<forall>c\<in>set pre. \<not> ascii_letter c) \<and> (\<forall>c\<in>set suf. \<not> ascii_letter c) \<and>
         w \<noteq> [] \<and> ascii_letter (hd w) \<and> ascii_letter (last w))) \<and>
   ScrubWord '''' = Inr '''' \<and>
   ScrubWord ''...'' = Inr '''' \<and>
   ScrubWord ''don't!'' = Inr ''don't'' \<and>
   ScrubWord ''123abc456'' = Inr ''abc'' \<and>
   ScrubWord ''Hello,'' = Inr ''Hello''"
proof -
  have total: "\<exists>w. ScrubWord s = Inr w" by (simp add: ScrubWord_trim)
  have none: "(\<forall>c\<in>set s. \<not> ascii_letter c) \<longrightarrow> ScrubWord s = Inr ''''"
    by (simp add: ScrubWord_trim trim_no_alpha alphaChar_letter)
  have some: "(\<exists>c\<in>set s. ascii_letter c) \<longrightarrow>
      (\<exists>pre w suf. s = pre @ w @ suf \<and> ScrubWord s = Inr w \<and>
         (\<forall>c\<in>set pre. \<not> ascii_letter c) \<and> (\<forall>c\<in>set suf. \<not> ascii_letter c) \<and>
         w \<noteq> [] \<and> ascii_letter (hd w) \<and> ascii_letter (last w))"
  proof
    assume "\<exists>c\<in>set s. ascii_letter c"
    then have "\<exists>c\<in>set s. alphaChar c" by (simp add: alphaChar_letter)
    from trim_decomp[OF this] obtain pre suf where
      "s = pre @ trim s @ suf" "\<forall>c\<in>set pre. \<not> alphaChar c" "\<forall>c\<in>set suf. \<not> alphaChar c"
      "trim s \<noteq> []" "alphaChar (hd (trim s))" "alphaChar (last (trim s))"
      by blast
    then show "\<exists>pre w suf. s = pre @ w @ suf \<and> ScrubWord s = Inr w \<and>
         (\<forall>c\<in>set pre. \<not> ascii_letter c) \<and> (\<forall>c\<in>set suf. \<not> ascii_letter c) \<and>
         w \<noteq> [] \<and> ascii_letter (hd w) \<and> ascii_letter (last w)"
      unfolding alphaChar_letter ScrubWord_trim by blast
  qed
  have e1: "ScrubWord '''' = Inr ''''" by code_simp
  have e2: "ScrubWord ''...'' = Inr ''''" by code_simp
  have e3: "ScrubWord ''don't!'' = Inr ''don't''" by code_simp
  have e4: "ScrubWord ''123abc456'' = Inr ''abc''" by code_simp
  have e5: "ScrubWord ''Hello,'' = Inr ''Hello''" by code_simp
  from total none some e1 e2 e3 e4 e5 show ?thesis by blast
qed

theorem ScrubWord_first_to_last_letter_witness:
  "(\<exists>c\<in>set ''don't!''. ascii_letter c) \<and>
   (\<exists>pre w suf. ''don't!'' = pre @ w @ suf \<and> ScrubWord ''don't!'' = Inr w \<and>
      (\<forall>c\<in>set pre. \<not> ascii_letter c) \<and> (\<forall>c\<in>set suf. \<not> ascii_letter c) \<and>
      w \<noteq> [] \<and> ascii_letter (hd w) \<and> ascii_letter (last w)) \<and>
   \<not> (\<exists>c\<in>set ''...''. ascii_letter c) \<and> ScrubWord ''...'' = Inr ''''"
proof -
  have a: "\<exists>c\<in>set ''don't!''. ascii_letter c" by (simp add: ascii_letter_def)
  have b: "\<not> (\<exists>c\<in>set ''...''. ascii_letter c)" by (simp add: ascii_letter_def)
  from a b ScrubWord_first_to_last_letter[of "''don't!''"]
    ScrubWord_first_to_last_letter[of "''...''"]
  show ?thesis by blast
qed

section \<open>Case folding and scrubbing\<close>







section \<open>Properties of counting\<close>

lemma scrubbed_word_of: "scrubbed cs token = Inr (word_of cs token)"
  by (simp add: scrubbed_def word_of_def ScrubWord_trim)

lemma WordCount_loop_eq:
  "WordCount_loop scanner cs m tot =
     Inr (foldl incr m (map (word_of cs) scanner), tot + int (length scanner))"
  by (induction scanner arbitrary: m tot) (simp_all add: scrubbed_word_of)

lemma foldl_incr:
  "foldl incr m ws w =
     (if w \<in> set ws \<or> m w \<noteq> None
      then Some ((case m w of None \<Rightarrow> 0 | Some n \<Rightarrow> n) + int (count_list ws w))
      else None)"
proof (induction ws arbitrary: m)
  case Nil
  then show ?case by (auto split: option.splits)
next
  case (Cons a ws)
  have i: "incr m a w = (if w = a then Some ((case m w of None \<Rightarrow> 0 | Some n \<Rightarrow> n) + 1) else m w)"
    by (simp add: incr_def)
  have "foldl incr m (a # ws) w = foldl incr (incr m a) ws w" by simp
  also have "\<dots> = (if w \<in> set ws \<or> incr m a w \<noteq> None
      then Some ((case incr m a w of None \<Rightarrow> 0 | Some n \<Rightarrow> n) + int (count_list ws w))
      else None)" by (rule Cons.IH)
  finally show ?case unfolding i by (auto split: option.splits)
qed

lemma WordCount_eq:
  "WordCount scanner cs =
     Inr ((foldl incr Map.empty (map (word_of cs) scanner))('''' := None), int (length scanner))"
  by (simp add: WordCount_def WordCount_loop_eq)

lemma WordCount_lookup:
  assumes "WordCount scanner cs = Inr (m, tot)"
  shows "m w = (if w \<noteq> '''' \<and> w \<in> word_of cs ` set scanner
                then Some (int (count_list (map (word_of cs) scanner) w)) else None)"
  using assms by (auto simp: WordCount_eq foldl_incr)

lemma WordCount_dom:
  assumes "WordCount scanner cs = Inr (m, tot)"
  shows "dom m = word_of cs ` set scanner - {''''}"
  using WordCount_lookup[OF assms] by (auto simp: dom_def split: if_splits)

lemma sum_counts:
  "(\<Sum>w\<in>set ws - {x}. int (count_list ws w)) = int (length (filter (\<lambda>w. w \<noteq> x) ws))"
proof -
  let ?f = "filter (\<lambda>w. w \<noteq> x) ws"
  have "set ?f \<subseteq> set ws - {x}" by auto
  then have "sum (count_list ?f) (set ws - {x}) = length ?f"
    by (rule sum_count_set) simp
  moreover have "\<And>w. count_list ?f w = (if w \<noteq> x then count_list ws w else 0)"
    by (induction ws) auto
  ultimately have "sum (count_list ws) (set ws - {x}) = length ?f" by simp
  then show ?thesis by (metis of_nat_sum)
qed

lemma WordCount_sum:
  assumes "WordCount scanner cs = Inr (m, tot)"
  shows "(\<Sum>w\<in>dom m. the (m w)) =
           int (length (filter (\<lambda>token. scrubbed cs token \<noteq> Inr '''') scanner))"
proof -
  let ?ws = "map (word_of cs) scanner"
  have d: "dom m = set ?ws - {''''}" using WordCount_dom[OF assms] by simp
  have "(\<Sum>w\<in>dom m. the (m w)) = (\<Sum>w\<in>set ?ws - {''''}. int (count_list ?ws w))"
    unfolding d by (rule sum.cong) (auto simp: WordCount_lookup[OF assms])
  also have "\<dots> = int (length (filter (\<lambda>w. w \<noteq> '''') ?ws))" by (rule sum_counts)
  also have "\<dots> = int (length (filter (\<lambda>token. scrubbed cs token \<noteq> Inr '''') scanner))"
    by (simp add: filter_map comp_def scrubbed_word_of)
  finally show ?thesis .
qed

lemma length_filter_eq_iff: "length (filter P xs) = length xs \<longleftrightarrow> (\<forall>x\<in>set xs. P x)"
proof -
  have "length (filter P xs) + length (filter (\<lambda>x. \<not> P x) xs) = length xs"
    by (rule sum_length_filter_compl)
  then have "length (filter P xs) = length xs \<longleftrightarrow> filter (\<lambda>x. \<not> P x) xs = []" by auto
  then show ?thesis by (simp add: filter_empty_conv)
qed

text \<open>
  C4. \<open>WordCount\<close> returns for every token sequence and either flag. \<open>Total\<close> is the
  number of tokens scanned, whatever they scrub to. The empty word is not a key of the
  map, every value of the map is positive, and the map is finite. The sum of the values
  is at most \<open>Total\<close>, and it equals \<open>Total\<close> exactly when no token scrubs to the
  empty word.
\<close>

theorem WordCount_total_and_counts:
  "\<exists>m tot. WordCount scanner cs = Inr (m, tot) \<and>
     tot = int (length scanner) \<and>
     m '''' = None \<and>
     (\<forall>w n. m w = Some n \<longrightarrow> 0 < n) \<and>
     finite (dom m) \<and>
     (\<Sum>w\<in>dom m. the (m w)) \<le> tot \<and>
     ((\<Sum>w\<in>dom m. the (m w)) = tot \<longleftrightarrow>
        (\<forall>token\<in>set scanner. scrubbed cs token \<noteq> Inr ''''))"
proof -
  obtain m tot where wc: "WordCount scanner cs = Inr (m, tot)"
    by (simp add: WordCount_eq)
  have t: "tot = int (length scanner)" using wc by (simp add: WordCount_eq)
  have e: "m '''' = None" by (simp add: WordCount_lookup[OF wc])
  have p: "\<forall>w n. m w = Some n \<longrightarrow> 0 < n"
  proof (intro allI impI)
    fix w n assume "m w = Some n"
    then have "w \<in> set (map (word_of cs) scanner)" "n = int (count_list (map (word_of cs) scanner) w)"
      by (auto simp: WordCount_lookup[OF wc] split: if_splits)
    then show "0 < n" using count_list_0_iff[of "map (word_of cs) scanner" w] by auto
  qed
  have f: "finite (dom m)" by (simp add: WordCount_dom[OF wc])
  let ?P = "\<lambda>token. scrubbed cs token \<noteq> Inr ''''"
  have s: "(\<Sum>w\<in>dom m. the (m w)) = int (length (filter ?P scanner))"
    by (rule WordCount_sum[OF wc])
  have le: "(\<Sum>w\<in>dom m. the (m w)) \<le> tot" unfolding s t by simp
  have eq: "(\<Sum>w\<in>dom m. the (m w)) = tot \<longleftrightarrow> (\<forall>token\<in>set scanner. ?P token)"
    unfolding s t using length_filter_eq_iff[of ?P scanner] by simp
  from wc t e p f le eq show ?thesis by blast
qed

lemmas eval_WordCount =
  WordCount_def scrubbed_def ToLower_def lowerByte_def inRange_def char_of_def bit_0
  ScrubWord_trim trim_def alphaChar_def incr_def

theorem WordCount_total_and_counts_witness:
  "WordCount [''a'', ''B,'', ''b'', ''...''] False = Inr ([''a'' \<mapsto> 1, ''b'' \<mapsto> 2], 4) \<and>
   (\<Sum>w\<in>dom [''a'' \<mapsto> 1, ''b'' \<mapsto> (2::int)]. the ([''a'' \<mapsto> 1, ''b'' \<mapsto> (2::int)] w)) < 4"
proof -
  let ?s = "[''a'', ''B,'', ''b'', ''...'']"
  have w: "WordCount ?s False = Inr ([''a'' \<mapsto> 1, ''b'' \<mapsto> 2], 4)"
    by (simp add: eval_WordCount)
  have z: "scrubbed False ''...'' = Inr ''''" by (simp add: eval_WordCount)
  from WordCount_total_and_counts[of ?s False] obtain m tot where
    h: "WordCount ?s False = Inr (m, tot)" "(\<Sum>w\<in>dom m. the (m w)) \<le> tot"
       "((\<Sum>w\<in>dom m. the (m w)) = tot \<longleftrightarrow> (\<forall>token\<in>set ?s. scrubbed False token \<noteq> Inr '''')) "
    by blast
  from h(1) w have m: "m = [''a'' \<mapsto> 1, ''b'' \<mapsto> 2]" and t: "tot = 4" by simp_all
  from h(3) z have "(\<Sum>w\<in>dom m. the (m w)) \<noteq> tot" by simp
  with h(2) have "(\<Sum>w\<in>dom m. the (m w)) < tot" by simp
  with w show ?thesis unfolding m t by simp
qed

section \<open>The pass over the frequency map\<close>

lemma newlen_loop_returns:
  "0 < newlen \<Longrightarrow> \<exists>r. newlen_loop newlen wordlen = Some r"
proof (induction "wordlen - newlen" arbitrary: newlen rule: less_induct)
  case less
  show ?case
  proof (cases "newlen < wordlen")
    case True
    with less.prems have "wordlen - newlen * 2 < wordlen - newlen" by arith
    moreover from less.prems have "0 < newlen * 2" by simp
    ultimately obtain r where "newlen_loop (newlen * 2) wordlen = Some r"
      using less.hyps by blast
    with True show ?thesis by (subst newlen_loop.simps) simp
  next
    case False
    then show ?thesis by (subst newlen_loop.simps) simp
  qed
qed

lemma copyHist_prefix:
  assumes "length hist \<le> length newHist" "k \<le> length hist"
  shows "fold (\<lambda>i r. case r of Inl e \<Rightarrow> Inl e
                    | Inr nh \<Rightarrow> if i < length nh then Inr (nh[i := hist ! i])
                                else Inl IndexOutOfRange)
           [0..<k] (Inr newHist) = Inr (take k hist @ drop k newHist)"
  using assms(2)
proof (induction k)
  case 0
  then show ?case by simp
next
  case (Suc k)
  have "(take k hist @ drop k newHist)[k := hist ! k] = take (Suc k) hist @ drop (Suc k) newHist"
  proof -
    have lk: "length (take k hist) = k" using Suc.prems by simp
    have "drop k newHist = newHist ! k # drop (Suc k) newHist"
      using Suc.prems assms(1) by (simp add: Cons_nth_drop_Suc)
    then have "(take k hist @ drop k newHist)[k := hist ! k]
        = take k hist @ hist ! k # drop (Suc k) newHist"
      using lk by (simp add: list_update_append)
    also have "\<dots> = take (Suc k) hist @ drop (Suc k) newHist"
      using Suc.prems by (simp add: take_Suc_conv_app_nth)
    finally show ?thesis .
  qed
  with Suc assms(1) show ?case by simp
qed

lemma copyHist_eq:
  "length hist \<le> length newHist \<Longrightarrow>
   copyHist hist newHist = Inr (hist @ drop (length hist) newHist)"
  unfolding copyHist_def using copyHist_prefix[of hist newHist "length hist"] by simp

lemma copyHist_double:
  "copyHist hist (replicate (2 * length hist) 0) = Inr (hist @ replicate (length hist) 0)"
  by (simp add: copyHist_eq)

lemma process_step_eq:
  assumes "0 < length (LengthHistogram c)"
  shows "process_step c (k, v) =
     (if length k < 2 * length (LengthHistogram c)
      then Inr (c\<lparr>MostUsed := MostUsed c @ [\<lparr>Word = k, Count = v\<rparr>],
                 LengthHistogram := (grown (LengthHistogram c) (length k))
                    [length k := grown (LengthHistogram c) (length k) ! length k + 1]\<rparr>)
      else Inl IndexOutOfRange)"
proof -
  from assms obtain r where r: "newlen_loop (2 * length (LengthHistogram c)) (length k) = Some r"
    using newlen_loop_returns[of "2 * length (LengthHistogram c)" "length k"] by auto
  show ?thesis
    using assms by (auto simp: process_step_def Let_def r copyHist_double histIncr_def grown_def)
qed

lemma newlen_loop_zero:
  "newlen_loop newlen wordlen = Some r \<Longrightarrow> newlen = 0 \<longrightarrow> wordlen = 0"
  by (rule newlen_loop.raw_induct[where P = "\<lambda>n w y. n = 0 \<longrightarrow> w = 0"])
     (auto split: if_splits)

lemma newlen_loop_diverges: "0 < wordlen \<Longrightarrow> newlen_loop 0 wordlen = None"
  using newlen_loop_zero[of 0 wordlen] by (cases "newlen_loop 0 wordlen") auto

lemma process_step_no_return:
  "LengthHistogram c = [] \<Longrightarrow> k \<noteq> [] \<Longrightarrow> process_step c (k, v) = Inl NoReturn"
  by (simp add: process_step_def Let_def newlen_loop_diverges)

lemma length_stepHist:
  "length (stepHist h n) = (if n < length h then length h else 2 * length h)"
  by (simp add: stepHist_def grown_def)

lemma slot_grown: "slot (grown h n) i = slot h i"
  by (auto simp: slot_def grown_def nth_append)

lemma slot_stepHist:
  assumes "n < 2 * length h"
  shows "slot (stepHist h n) i = slot h i + (if i = n then 1 else 0)"
proof -
  have n: "n < length (grown h n)" using assms by (simp add: grown_def)
  have "slot (stepHist h n) i = slot (grown h n) i + (if i = n then 1 else 0)"
    using n by (auto simp: slot_def stepHist_def)
  then show ?thesis by (simp add: slot_grown)
qed

lemma sum_list_update_int:
  "i < length xs \<Longrightarrow> sum_list (xs[i := v]) = sum_list xs - xs ! i + (v::int)"
proof (induction xs arbitrary: i)
  case Nil
  then show ?case by simp
next
  case (Cons x xs)
  then show ?case by (cases i) auto
qed

lemma sum_list_stepHist:
  assumes "n < 2 * length h"
  shows "sum_list (stepHist h n) = sum_list h + 1"
proof -
  have n: "n < length (grown h n)" using assms by (simp add: grown_def)
  have "sum_list (grown h n) = sum_list h" by (simp add: grown_def sum_list_replicate)
  with n show ?thesis by (simp add: stepHist_def sum_list_update_int)
qed

lemma nonneg_stepHist:
  assumes "\<forall>v\<in>set h. 0 \<le> v" "n < 2 * length h"
  shows "\<forall>v\<in>set (stepHist h n). 0 \<le> v"
proof -
  have n: "n < length (grown h n)" using assms by (simp add: grown_def)
  have g: "\<forall>v\<in>set (grown h n). 0 \<le> v" using assms(1) by (auto simp: grown_def)
  then have "0 \<le> grown h n ! n" using n by simp
  with g show ?thesis
    unfolding stepHist_def using set_update_subset_insert[of "grown h n" n] by fastforce
qed

lemma process_step_stepHist:
  assumes "0 < length (LengthHistogram c)"
  shows "process_step c (k, v) =
     (if length k < 2 * length (LengthHistogram c)
      then Inr (c\<lparr>MostUsed := MostUsed c @ [\<lparr>Word = k, Count = v\<rparr>],
                 LengthHistogram := stepHist (LengthHistogram c) (length k)\<rparr>)
      else Inl IndexOutOfRange)"
  using process_step_eq[OF assms] by (simp add: stepHist_def)

lemma process_loop_props:
  assumes "process_loop entries c = Inr c'" "0 < length (LengthHistogram c)"
  shows "MostUsed c' = MostUsed c @ map tuple_of entries
    \<and> Counts c' = Counts c \<and> Total c' = Total c \<and> Unique c' = Unique c
    \<and> length (LengthHistogram c) \<le> length (LengthHistogram c')
    \<and> (\<forall>i. slot (LengthHistogram c') i =
          slot (LengthHistogram c) i + int (length (filter (\<lambda>kv. length (fst kv) = i) entries)))
    \<and> sum_list (LengthHistogram c') = sum_list (LengthHistogram c) + int (length entries)
    \<and> ((\<forall>v\<in>set (LengthHistogram c). 0 \<le> v) \<longrightarrow> (\<forall>v\<in>set (LengthHistogram c'). 0 \<le> v))"
  using assms
proof (induction entries arbitrary: c)
  case Nil
  then show ?case by simp
next
  case (Cons kv entries)
  obtain k v where kv: "kv = (k, v)" by (cases kv)
  let ?h = "LengthHistogram c"
  let ?c1 = "c\<lparr>MostUsed := MostUsed c @ [\<lparr>Word = k, Count = v\<rparr>],
                 LengthHistogram := stepHist ?h (length k)\<rparr>"
  have st: "process_step c (k, v) =
     (if length k < 2 * length ?h then Inr ?c1 else Inl IndexOutOfRange)"
    by (rule process_step_stepHist[OF Cons.prems(2)])
  from Cons.prems(1) have lt: "length k < 2 * length ?h"
    unfolding kv by (auto simp: st split: if_splits)
  with Cons.prems(1) have loop: "process_loop entries ?c1 = Inr c'"
    unfolding kv by (simp add: st)
  have pos: "0 < length (LengthHistogram ?c1)"
    using Cons.prems(2) by (simp add: length_stepHist)
  note ih = Cons.IH[OF loop pos]
  have a: "MostUsed c' = MostUsed c @ map tuple_of (kv # entries)"
    using ih by (simp add: kv tuple_of_def)
  have b: "Counts c' = Counts c \<and> Total c' = Total c \<and> Unique c' = Unique c"
    using ih by simp
  have c: "length ?h \<le> length (LengthHistogram c')"
  proof -
    have "length ?h \<le> length (stepHist ?h (length k))" by (simp add: length_stepHist)
    with ih show ?thesis by simp
  qed
  have d: "\<forall>i. slot (LengthHistogram c') i =
          slot ?h i + int (length (filter (\<lambda>kv. length (fst kv) = i) (kv # entries)))"
  proof
    fix i
    have "slot (LengthHistogram c') i = slot (stepHist ?h (length k)) i
            + int (length (filter (\<lambda>kv. length (fst kv) = i) entries))"
      using ih by simp
    then show "slot (LengthHistogram c') i =
          slot ?h i + int (length (filter (\<lambda>kv. length (fst kv) = i) (kv # entries)))"
      by (auto simp: slot_stepHist[OF lt] kv)
  qed
  have e: "sum_list (LengthHistogram c') = sum_list ?h + int (length (kv # entries))"
    using ih by (simp add: sum_list_stepHist[OF lt])
  have f: "(\<forall>v\<in>set ?h. 0 \<le> v) \<longrightarrow> (\<forall>v\<in>set (LengthHistogram c'). 0 \<le> v)"
  proof
    assume "\<forall>v\<in>set ?h. 0 \<le> v"
    then have "\<forall>v\<in>set (stepHist ?h (length k)). 0 \<le> v" by (rule nonneg_stepHist) (rule lt)
    with ih show "\<forall>v\<in>set (LengthHistogram c'). 0 \<le> v" by simp
  qed
  from a b c d e f show ?case by blast
qed

lemma process_loop_succeeds:
  assumes "\<forall>kv\<in>set entries. length (fst kv) < 128"
    "length (LengthHistogram c) = 64 \<or> length (LengthHistogram c) = 128"
  shows "\<exists>c'. process_loop entries c = Inr c'"
  using assms
proof (induction entries arbitrary: c)
  case Nil
  then show ?case by simp
next
  case (Cons kv entries)
  obtain k v where kv: "kv = (k, v)" by (cases kv)
  let ?h = "LengthHistogram c"
  let ?c1 = "c\<lparr>MostUsed := MostUsed c @ [\<lparr>Word = k, Count = v\<rparr>],
                 LengthHistogram := stepHist ?h (length k)\<rparr>"
  have pos: "0 < length ?h" using Cons.prems(2) by auto
  have lt: "length k < 2 * length ?h" using Cons.prems kv by auto
  have st: "process_step c (k, v) = Inr ?c1"
    using process_step_stepHist[OF pos, of k v] lt by simp
  have "length (LengthHistogram ?c1) = 64 \<or> length (LengthHistogram ?c1) = 128"
    using Cons.prems kv by (auto simp: length_stepHist)
  moreover have "\<forall>kv\<in>set entries. length (fst kv) < 128" using Cons.prems(1) by simp
  ultimately obtain c' where "process_loop entries ?c1 = Inr c'"
    using Cons.IH by blast
  then show ?case by (simp add: kv st)
qed

section \<open>Trimming the histogram\<close>

lemma trimHist_loop_none:
  "\<forall>v\<in>set h. v \<le> 0 \<Longrightarrow> trimHist_loop h i mx = mx"
  by (induction h arbitrary: i mx) auto

lemma trimHist_loop_some:
  assumes "\<exists>v\<in>set h. 0 < v"
  shows "i \<le> trimHist_loop h i mx \<and> trimHist_loop h i mx < i + length h \<and>
         0 < h ! (trimHist_loop h i mx - i) \<and>
         (\<forall>j. trimHist_loop h i mx - i < j \<and> j < length h \<longrightarrow> h ! j \<le> 0)"
  using assms
proof (induction h arbitrary: i mx)
  case Nil
  then show ?case by simp
next
  case (Cons v h)
  let ?mx = "if v > 0 then i else mx"
  let ?r = "trimHist_loop h (i + 1) ?mx"
  have r: "trimHist_loop (v # h) i mx = ?r" by simp
  show ?case
  proof (cases "\<exists>w\<in>set h. 0 < w")
    case True
    from Cons.IH[OF True, of "i + 1" ?mx]
    have ih: "i + 1 \<le> ?r" "?r < i + 1 + length h" "0 < h ! (?r - (i + 1))"
      "\<forall>j. ?r - (i + 1) < j \<and> j < length h \<longrightarrow> h ! j \<le> 0" by auto
    have "?r - i = Suc (?r - (i + 1))" using ih(1) by arith
    then have a: "(v # h) ! (?r - i) = h ! (?r - (i + 1))" by simp
    have b: "\<forall>j. ?r - i < j \<and> j < length (v # h) \<longrightarrow> (v # h) ! j \<le> 0"
    proof (intro allI impI)
      fix j assume j: "?r - i < j \<and> j < length (v # h)"
      then obtain j' where j': "j = Suc j'" by (cases j) auto
      with j ih(1) have "?r - (i + 1) < j' \<and> j' < length h" by auto
      with ih(4) have "h ! j' \<le> 0" by blast
      then show "(v # h) ! j \<le> 0" by (simp add: j')
    qed
    from ih(1,2,3) a b show ?thesis unfolding r by auto
  next
    case False
    with Cons.prems have v: "0 < v" by auto
    from False have np: "\<forall>w\<in>set h. w \<le> 0" by auto
    then have ri: "?r = i" using v by (simp add: trimHist_loop_none)
    have b: "\<forall>j. 0 < j \<and> j < length (v # h) \<longrightarrow> (v # h) ! j \<le> 0"
    proof (intro allI impI)
      fix j assume j: "0 < j \<and> j < length (v # h)"
      then obtain j' where j': "j = Suc j'" by (cases j) auto
      with j np show "(v # h) ! j \<le> 0" by simp
    qed
    from v b show ?thesis unfolding r ri by simp
  qed
qed

lemma trimHist_spec:
  assumes "LengthHistogram c \<noteq> []" "\<forall>v\<in>set (LengthHistogram c). 0 \<le> v"
  shows "\<exists>h zs. trimHist c = Inr (c\<lparr>LengthHistogram := h\<rparr>) \<and>
           LengthHistogram c = h @ zs \<and> (\<forall>z\<in>set zs. z = 0) \<and> h \<noteq> [] \<and>
           (0 < last h \<or> ((\<forall>v\<in>set (LengthHistogram c). v = 0) \<and> h = [0]))"
proof -
  let ?H = "LengthHistogram c"
  let ?r = "trimHist_loop ?H 0 0"
  let ?h = "take (?r + 1) ?H"
  let ?zs = "drop (?r + 1) ?H"
  have facts: "?r < length ?H \<and> (\<forall>j. ?r < j \<and> j < length ?H \<longrightarrow> ?H ! j \<le> 0) \<and>
     (0 < ?H ! ?r \<or> ((\<forall>v\<in>set ?H. v = 0) \<and> ?r = 0))"
  proof (cases "\<exists>v\<in>set ?H. 0 < v")
    case True
    from trimHist_loop_some[OF True, of 0 0] show ?thesis by auto
  next
    case False
    then have np: "\<forall>v\<in>set ?H. v \<le> 0" by auto
    then have r0: "?r = 0" by (rule trimHist_loop_none)
    from np assms(2) have az: "\<forall>v\<in>set ?H. v = 0" by fastforce
    from np have "\<forall>j. j < length ?H \<longrightarrow> ?H ! j \<le> 0" by simp
    with az r0 assms(1) show ?thesis by simp
  qed
  then have rl: "?r < length ?H" by blast
  have t: "trimHist c = Inr (c\<lparr>LengthHistogram := ?h\<rparr>)"
    using rl by (simp add: trimHist_def sliceTo_def Let_def nat_add_distrib)
  have sp: "?H = ?h @ ?zs" by simp
  have z: "\<forall>z\<in>set ?zs. z = 0"
  proof
    fix z assume "z \<in> set ?zs"
    then obtain j where j: "j < length ?zs" "z = ?zs ! j" by (metis in_set_conv_nth)
    then have "z = ?H ! (?r + 1 + j)" by simp
    moreover have "?r < ?r + 1 + j \<and> ?r + 1 + j < length ?H" using j(1) by simp
    ultimately have "z \<le> 0" using facts by blast
    moreover have "0 \<le> z" using \<open>z \<in> set ?zs\<close> assms(2) by (meson in_set_dropD)
    ultimately show "z = 0" by simp
  qed
  have ne: "?h \<noteq> []" using assms(1) by simp
  have la: "last ?h = ?H ! ?r"
    using rl by (simp add: take_Suc_conv_app_nth)
  have fin: "0 < last ?h \<or> ((\<forall>v\<in>set ?H. v = 0) \<and> ?h = [0])"
  proof (cases "0 < ?H ! ?r")
    case True
    then show ?thesis using la by simp
  next
    case False
    with facts have az: "\<forall>v\<in>set ?H. v = 0" and r0: "?r = 0" by blast+
    from assms(1) az have "take 1 ?H = [0]" by (cases ?H) auto
    with az r0 show ?thesis by simp
  qed
  from t sp z ne fin show ?thesis by blast
qed

section \<open>Sorting and truncating\<close>

lemma set_sort_insert: "set (sort_insert lt x ys) = insert x (set ys)"
  by (induction ys) auto

lemma mset_sort_insert: "mset (sort_insert lt x ys) = add_mset x (mset ys)"
  by (induction ys) auto

lemma sorted_sort_insert:
  assumes "sorted_wrt (\<lambda>a b. Count b \<le> Count a) ys"
  shows "sorted_wrt (\<lambda>a b. Count b \<le> Count a)
           (sort_insert (sort_Reverse ByCount_Less) x ys)"
  using assms
proof (induction ys)
  case Nil
  then show ?case by simp
next
  case (Cons y ys)
  show ?case
  proof (cases "sort_Reverse ByCount_Less x y")
    case True
    then have "Count y < Count x" by (simp add: sort_Reverse_def ByCount_Less_def)
    with Cons.prems True show ?thesis by fastforce
  next
    case False
    then have "Count x \<le> Count y" by (simp add: sort_Reverse_def ByCount_Less_def)
    with Cons False show ?thesis by (auto simp: set_sort_insert)
  qed
qed

lemma sort_Sort_foldl:
  "sorted_wrt (\<lambda>a b. Count b \<le> Count a) acc \<Longrightarrow>
   sorted_wrt (\<lambda>a b. Count b \<le> Count a)
     (foldl (\<lambda>acc x. sort_insert (sort_Reverse ByCount_Less) x acc) acc xs)"
  by (induction xs arbitrary: acc) (simp_all add: sorted_sort_insert)

lemma sorted_sort_Sort:
  "sorted_wrt (\<lambda>a b. Count b \<le> Count a) (sort_Sort (sort_Reverse ByCount_Less) xs)"
  unfolding sort_Sort_def by (rule sort_Sort_foldl) simp

lemma mset_sort_foldl:
  "mset (foldl (\<lambda>acc x. sort_insert lt x acc) acc xs) = mset acc + mset xs"
  by (induction xs arbitrary: acc) (simp_all add: mset_sort_insert)

lemma mset_sort_Sort: "mset (sort_Sort lt xs) = mset xs"
  by (simp add: sort_Sort_def mset_sort_foldl)

lemma length_sort_Sort: "length (sort_Sort lt xs) = length xs"
  by (metis mset_sort_Sort size_mset)

lemma TruncateTopWords_eq:
  "TruncateTopWords c n =
     Inr (if n > 0 \<and> int (length (MostUsed c)) > n
          then c\<lparr>MostUsed := take (nat n) (MostUsed c)\<rparr> else c)"
  by (simp add: TruncateTopWords_def sliceTo_def)

lemma TruncateTopWords2_eq:
  "TruncateTopWords2 c n =
     (if 0 \<le> n \<and> n \<le> int (length (MostUsed c))
      then Inr (c\<lparr>MostUsed := take (nat n) (MostUsed c)\<rparr>)
      else Inl SliceBoundsOutOfRange)"
  by (simp add: TruncateTopWords2_def sliceTo_def)

lemma range_order_length:
  assumes "range_order m entries"
  shows "int (length entries) = int (card (dom m))" "fst ` set entries = dom m"
proof -
  from assms have d: "distinct (map fst entries)" and m: "map_of entries = m"
    by (simp_all add: range_order_def)
  show 2: "fst ` set entries = dom m" using m by (metis dom_map_of_conv_image_fst)
  have "card (fst ` set entries) = length entries"
    using d by (metis distinct_card length_map set_map)
  with 2 show "int (length entries) = int (card (dom m))" by simp
qed

lemma process_Inr:
  assumes "process entries c = Inr c2"
  shows "\<exists>c1 zs. process_loop entries (c\<lparr>LengthHistogram := replicate 64 0, MostUsed := []\<rparr>) = Inr c1 \<and>
     LengthHistogram c1 = LengthHistogram c2 @ zs \<and> (\<forall>z\<in>set zs. z = 0) \<and>
     LengthHistogram c2 \<noteq> [] \<and>
     (0 < last (LengthHistogram c2) \<or>
        ((\<forall>v\<in>set (LengthHistogram c1). v = 0) \<and> LengthHistogram c2 = [0])) \<and>
     (\<forall>v\<in>set (LengthHistogram c1). 0 \<le> v) \<and>
     64 \<le> length (LengthHistogram c1) \<and>
     sum_list (LengthHistogram c1) = int (length entries) \<and>
     (\<forall>i. slot (LengthHistogram c1) i = int (length (filter (\<lambda>kv. length (fst kv) = i) entries))) \<and>
     MostUsed c2 = sort_Sort (sort_Reverse ByCount_Less) (map tuple_of entries) \<and>
     Counts c2 = Counts c \<and> Total c2 = Total c \<and> Unique c2 = Unique c"
proof -
  let ?c0 = "c\<lparr>LengthHistogram := replicate 64 0, MostUsed := []\<rparr>"
  from assms obtain c1 where
    l: "process_loop entries ?c0 = Inr c1" and
    t: "trimHist (c1\<lparr>MostUsed := sort_Sort (sort_Reverse ByCount_Less) (MostUsed c1)\<rparr>) = Inr c2"
    by (auto simp: process_def split: sum.splits if_splits)
  have pos: "0 < length (LengthHistogram ?c0)" by simp
  note p = process_loop_props[OF l pos]
  have mu: "MostUsed c1 = map tuple_of entries" using p by simp
  have f: "Counts c1 = Counts c \<and> Total c1 = Total c \<and> Unique c1 = Unique c" using p by simp
  have len: "64 \<le> length (LengthHistogram c1)" using p by simp
  have sl: "\<forall>i. slot (LengthHistogram c1) i =
      int (length (filter (\<lambda>kv. length (fst kv) = i) entries))"
    using p by (simp add: slot_def)
  have sm: "sum_list (LengthHistogram c1) = int (length entries)"
    using p by (simp add: sum_list_replicate)
  have nn: "\<forall>v\<in>set (LengthHistogram c1). 0 \<le> v" using p by simp
  let ?cs = "c1\<lparr>MostUsed := sort_Sort (sort_Reverse ByCount_Less) (MostUsed c1)\<rparr>"
  have ne: "LengthHistogram ?cs \<noteq> []" using len by auto
  have nn': "\<forall>v\<in>set (LengthHistogram ?cs). 0 \<le> v" using nn by simp
  from trimHist_spec[OF ne nn'] obtain h zs where
    h: "trimHist ?cs = Inr (?cs\<lparr>LengthHistogram := h\<rparr>)" "LengthHistogram ?cs = h @ zs"
      "\<forall>z\<in>set zs. z = 0" "h \<noteq> []"
      "0 < last h \<or> ((\<forall>v\<in>set (LengthHistogram ?cs). v = 0) \<and> h = [0])"
    by blast
  from t h(1) have c2: "c2 = ?cs\<lparr>LengthHistogram := h\<rparr>" by simp
  have h2: "LengthHistogram c2 = h" by (simp add: c2)
  have "LengthHistogram c1 = LengthHistogram c2 @ zs" using h(2) h2 by simp
  moreover have "MostUsed c2 = sort_Sort (sort_Reverse ByCount_Less) (map tuple_of entries)"
    by (simp add: c2 mu)
  moreover have "Counts c2 = Counts c \<and> Total c2 = Total c \<and> Unique c2 = Unique c"
    using f by (simp add: c2)
  moreover have "0 < last (LengthHistogram c2) \<or>
        ((\<forall>v\<in>set (LengthHistogram c1). v = 0) \<and> LengthHistogram c2 = [0])"
    using h(5) h2 by simp
  ultimately show ?thesis using l h(3,4) h2 nn len sm sl by blast
qed

lemma process_succeeds:
  assumes "\<forall>kv\<in>set entries. length (fst kv) < 128" "0 \<le> Unique c"
  shows "\<exists>c2. process entries c = Inr c2"
proof -
  let ?c0 = "c\<lparr>LengthHistogram := replicate 64 0, MostUsed := []\<rparr>"
  have "length (LengthHistogram ?c0) = 64 \<or> length (LengthHistogram ?c0) = 128" by simp
  from process_loop_succeeds[OF assms(1) this] obtain c1 where
    l: "process_loop entries ?c0 = Inr c1" by blast
  have pos: "0 < length (LengthHistogram ?c0)" by simp
  note p = process_loop_props[OF l pos]
  let ?cs = "c1\<lparr>MostUsed := sort_Sort (sort_Reverse ByCount_Less) (MostUsed c1)\<rparr>"
  have ne: "LengthHistogram ?cs \<noteq> []" using p by auto
  have nn: "\<forall>v\<in>set (LengthHistogram ?cs). 0 \<le> v" using p by simp
  from trimHist_spec[OF ne nn] obtain h where "trimHist ?cs = Inr (?cs\<lparr>LengthHistogram := h\<rparr>)"
    by blast
  with l assms(2) show ?thesis by (simp add: process_def)
qed

section \<open>The concordance that is built\<close>

lemma NewConcordance_Inr:
  assumes "NewConcordance scanner cs n entries = Inr c"
  shows "\<exists>m tot c2. WordCount scanner cs = Inr (m, tot) \<and>
     process entries \<lparr>Counts = m, Total = tot, Unique = int (card (dom m)),
                      MostUsed = [], LengthHistogram = []\<rparr> = Inr c2 \<and>
     c = (if n > 0 \<and> int (length (MostUsed c2)) > n
          then c2\<lparr>MostUsed := take (nat n) (MostUsed c2)\<rparr> else c2)"
  using assms
  by (auto simp: NewConcordance_def TruncateTopWords_eq split: sum.splits prod.splits)

lemma NewConcordance_fields:
  assumes "NewConcordance scanner cs n entries = Inr c"
  shows "WordCount scanner cs = Inr (Counts c, Total c)"
    "Unique c = int (card (dom (Counts c)))"
    "sum_list (LengthHistogram c) = int (length entries)"
    "\<forall>i. slot (LengthHistogram c) i = int (length (filter (\<lambda>kv. length (fst kv) = i) entries))"
    "MostUsed c = (let s = sort_Sort (sort_Reverse ByCount_Less) (map tuple_of entries)
                   in if n > 0 \<and> int (length s) > n then take (nat n) s else s)"
proof -
  from NewConcordance_Inr[OF assms] obtain m tot c2 where
    w: "WordCount scanner cs = Inr (m, tot)" and
    p: "process entries \<lparr>Counts = m, Total = tot, Unique = int (card (dom m)),
                      MostUsed = [], LengthHistogram = []\<rparr> = Inr c2" and
    c: "c = (if n > 0 \<and> int (length (MostUsed c2)) > n
          then c2\<lparr>MostUsed := take (nat n) (MostUsed c2)\<rparr> else c2)"
    by blast
  from process_Inr[OF p] obtain c1 :: Concordance and zs where
    q: "LengthHistogram c1 = LengthHistogram c2 @ zs" "\<forall>z\<in>set zs. z = 0"
       "sum_list (LengthHistogram c1) = int (length entries)"
       "\<forall>i. slot (LengthHistogram c1) i = int (length (filter (\<lambda>kv. length (fst kv) = i) entries))"
       "MostUsed c2 = sort_Sort (sort_Reverse ByCount_Less) (map tuple_of entries)"
       "Counts c2 = m" "Total c2 = tot" "Unique c2 = int (card (dom m))"
    by auto
  have hc: "LengthHistogram c = LengthHistogram c2" "Counts c = m" "Total c = tot"
    "Unique c = int (card (dom m))"
    using c q by (auto split: if_splits)
  show "WordCount scanner cs = Inr (Counts c, Total c)" using w hc by simp
  show "Unique c = int (card (dom (Counts c)))" using hc by simp
  have z: "sum_list zs = 0" using q(2) by (induction zs) auto
  show "sum_list (LengthHistogram c) = int (length entries)"
    using q(1,3) z hc by simp
  show "\<forall>i. slot (LengthHistogram c) i = int (length (filter (\<lambda>kv. length (fst kv) = i) entries))"
  proof
    fix i
    have "slot (LengthHistogram c2 @ zs) i = slot (LengthHistogram c2) i"
      using q(2) by (auto simp: slot_def nth_append)
    with q(1,4) hc show "slot (LengthHistogram c) i =
        int (length (filter (\<lambda>kv. length (fst kv) = i) entries))" by simp
  qed
  show "MostUsed c = (let s = sort_Sort (sort_Reverse ByCount_Less) (map tuple_of entries)
                   in if n > 0 \<and> int (length s) > n then take (nat n) s else s)"
    using c q(5) by (simp add: Let_def)
qed

text \<open>
  C5. Whenever the concordance is built, for an order \<open>entries\<close> in which the run time
  visits the keys of the frequency map, the entries of \<open>LengthHistogram\<close> sum to
  \<open>Unique\<close>, and \<open>Unique\<close> is the number of keys of the frequency map: the histogram
  counts distinct words, not occurrences.
\<close>

theorem histogram_sum_is_Unique:
  assumes "NewConcordance scanner cs n entries = Inr c" "range_order (Counts c) entries"
  shows "sum_list (LengthHistogram c) = Unique c \<and> Unique c = int (card (dom (Counts c)))"
  using NewConcordance_fields(2,3)[OF assms(1)] range_order_length(1)[OF assms(2)] by simp

text \<open>
  C6. Whenever the concordance is built, \<open>MostUsed\<close> is sorted by count, largest first:
  of two adjacent entries the earlier has a count greater than or equal to the later's.
\<close>

theorem MostUsed_sorted_by_count:
  assumes "NewConcordance scanner cs n entries = Inr c"
  shows "\<forall>i. i + 1 < length (MostUsed c) \<longrightarrow>
           Count (MostUsed c ! (i + 1)) \<le> Count (MostUsed c ! i)"
proof -
  let ?s = "sort_Sort (sort_Reverse ByCount_Less) (map tuple_of entries)"
  have s: "sorted_wrt (\<lambda>a b. Count b \<le> Count a) ?s" by (rule sorted_sort_Sort)
  then have "sorted_wrt (\<lambda>a b. Count b \<le> Count a) (take (nat n) ?s)"
    by (rule sorted_wrt_take)
  with s have "sorted_wrt (\<lambda>a b. Count b \<le> Count a) (MostUsed c)"
    using NewConcordance_fields(5)[OF assms] by (simp add: Let_def)
  then show ?thesis by (simp add: sorted_wrt_iff_nth_less)
qed

lemma NewConcordance_succeeds:
  assumes "WordCount scanner cs = Inr (m, tot)" "range_order m entries"
    "\<forall>token\<in>set scanner. length (word_of cs token) < 128"
  shows "\<exists>c. NewConcordance scanner cs n entries = Inr c"
proof -
  have "fst ` set entries = dom m" by (rule range_order_length(2)[OF assms(2)])
  also have "\<dots> = word_of cs ` set scanner - {''''}" by (rule WordCount_dom[OF assms(1)])
  finally have d: "fst ` set entries = word_of cs ` set scanner - {''''}" .
  have "\<forall>kv\<in>set entries. length (fst kv) < 128"
  proof
    fix kv assume "kv \<in> set entries"
    then have "fst kv \<in> word_of cs ` set scanner" using d by blast
    then obtain token where "token \<in> set scanner" "fst kv = word_of cs token" by blast
    with assms(3) show "length (fst kv) < 128" by simp
  qed
  then have "\<exists>c2. process entries \<lparr>Counts = m, Total = tot, Unique = int (card (dom m)),
                      MostUsed = [], LengthHistogram = []\<rparr> = Inr c2"
    by (rule process_succeeds) simp
  then obtain c2 where
    "process entries \<lparr>Counts = m, Total = tot, Unique = int (card (dom m)),
                      MostUsed = [], LengthHistogram = []\<rparr> = Inr c2" by blast
  then show ?thesis by (simp add: NewConcordance_def assms(1) TruncateTopWords_eq)
qed

text \<open>
  C8. Take a corpus with a token whose scrubbed word has length 70, in which every
  other scrubbed word is shorter than 64, and any order in which the run time visits the
  keys of its frequency map. Then \<open>NewConcordance\<close> returns a concordance, with no panic,
  whose trimmed \<open>LengthHistogram\<close> has at least 71 slots, and the slot at index 70 is at
  least one.
\<close>

theorem histogram_grows_for_length_70:
  assumes "WordCount scanner cs = Inr (m, tot)" "range_order m entries"
    "\<exists>token\<in>set scanner. \<exists>w. scrubbed cs token = Inr w \<and> length w = 70"
    "\<forall>token\<in>set scanner. \<forall>w. scrubbed cs token = Inr w \<longrightarrow> length w < 64 \<or> length w = 70"
  shows "\<exists>c. NewConcordance scanner cs n entries = Inr c \<and>
           71 \<le> length (LengthHistogram c) \<and> 1 \<le> LengthHistogram c ! 70"
proof -
  have short: "\<forall>token\<in>set scanner. length (word_of cs token) < 128"
    using assms(4) by (fastforce simp: scrubbed_word_of)
  from NewConcordance_succeeds[OF assms(1,2) short] obtain c where
    c: "NewConcordance scanner cs n entries = Inr c" by blast
  from assms(3) obtain token where tk: "token \<in> set scanner" "length (word_of cs token) = 70"
    by (auto simp: scrubbed_word_of)
  then have "word_of cs token \<in> word_of cs ` set scanner - {''''}" by auto
  then have "word_of cs token \<in> fst ` set entries"
    using WordCount_dom[OF assms(1)] range_order_length(2)[OF assms(2)] by simp
  then obtain kv where kv: "kv \<in> set entries" "length (fst kv) = 70" using tk(2) by auto
  then have "filter (\<lambda>kv. length (fst kv) = 70) entries \<noteq> []"
    by (auto simp: filter_empty_conv)
  then have "1 \<le> int (length (filter (\<lambda>kv. length (fst kv) = 70) entries))"
    by (cases "filter (\<lambda>kv. length (fst kv) = 70) entries") auto
  with NewConcordance_fields(4)[OF c] have s: "1 \<le> slot (LengthHistogram c) 70" by simp
  then have "70 < length (LengthHistogram c)" by (auto simp: slot_def split: if_splits)
  with s c show ?thesis by (auto simp: slot_def)
qed

text \<open>
  C9. Let \<open>process\<close> return \<open>c2\<close>, and let \<open>c1\<close> be the concordance after the pass over the
  frequency map, before trimming. The trimmed histogram of \<open>c2\<close> is the histogram of \<open>c1\<close>
  without a run of trailing zero slots. It is not empty. Its last entry is not zero,
  unless every slot of the histogram of \<open>c1\<close> is zero, and then the trimmed histogram is
  the single slot \<open>[0]\<close>. That is the result for an empty corpus.
\<close>

theorem trimmed_histogram_has_no_trailing_zero:
  assumes "process entries c = Inr c2"
  shows "\<exists>c1 zs. process_loop entries (c\<lparr>LengthHistogram := replicate 64 0, MostUsed := []\<rparr>) = Inr c1 \<and>
     LengthHistogram c1 = LengthHistogram c2 @ zs \<and> (\<forall>z\<in>set zs. z = 0) \<and>
     LengthHistogram c2 \<noteq> [] \<and>
     (last (LengthHistogram c2) \<noteq> 0 \<or>
        ((\<forall>v\<in>set (LengthHistogram c1). v = 0) \<and> LengthHistogram c2 = [0])) \<and>
     (entries = [] \<longrightarrow> LengthHistogram c2 = [0])"
proof -
  from process_Inr[OF assms] obtain c1 zs where
    q: "process_loop entries (c\<lparr>LengthHistogram := replicate 64 0, MostUsed := []\<rparr>) = Inr c1"
     "LengthHistogram c1 = LengthHistogram c2 @ zs" "\<forall>z\<in>set zs. z = 0"
     "LengthHistogram c2 \<noteq> []"
     "0 < last (LengthHistogram c2) \<or>
        ((\<forall>v\<in>set (LengthHistogram c1). v = 0) \<and> LengthHistogram c2 = [0])"
     "sum_list (LengthHistogram c1) = int (length entries)"
    by blast
  have e: "entries = [] \<longrightarrow> LengthHistogram c2 = [0]"
  proof
    assume "entries = []"
    with q(1) have "LengthHistogram c1 = replicate 64 0" by auto
    then have "set (LengthHistogram c1) \<subseteq> {0}" by simp
    moreover have "set (LengthHistogram c2) \<subseteq> set (LengthHistogram c1)"
      unfolding q(2) by simp
    ultimately have z: "\<forall>v\<in>set (LengthHistogram c2). v = 0" by blast
    from q(4) have "last (LengthHistogram c2) \<in> set (LengthHistogram c2)" by simp
    with z have "last (LengthHistogram c2) = 0" by blast
    with q(5) show "LengthHistogram c2 = [0]" by simp
  qed
  have f: "last (LengthHistogram c2) \<noteq> 0 \<or>
        ((\<forall>v\<in>set (LengthHistogram c1). v = 0) \<and> LengthHistogram c2 = [0])"
    using q(5) by auto
  from q(1-4) f e show ?thesis by blast
qed

section \<open>The two variants of \<open>TruncateTopWords\<close>\<close>

lemma NewConcordance_via_all:
  "NewConcordance scanner cs n entries =
     (case NewConcordance scanner cs 0 entries of
        Inl e \<Rightarrow> Inl e | Inr c \<Rightarrow> TruncateTopWords c n)"
  by (simp add: NewConcordance_def TruncateTopWords_eq split: sum.splits prod.splits)

lemma NewConcordance2_via_all:
  "NewConcordance2 scanner cs n entries =
     (case NewConcordance scanner cs 0 entries of
        Inl e \<Rightarrow> Inl e | Inr c \<Rightarrow> TruncateTopWords2 c n)"
  by (simp add: NewConcordance_def NewConcordance2_def TruncateTopWords_eq
      split: sum.splits prod.splits)

text \<open>
  The first variant does what C1 says: it is a no-op for \<open>n \<le> 0\<close> and for
  \<open>n \<ge> len(MostUsed)\<close>, it never panics, and truncating twice is truncating once.
\<close>

lemma TruncateTopWords_noop:
  "n \<le> 0 \<or> int (length (MostUsed c)) \<le> n \<Longrightarrow> TruncateTopWords c n = Inr c"
  by (auto simp: TruncateTopWords_eq)

lemma TruncateTopWords_idem:
  "TruncateTopWords c n = Inr c' \<Longrightarrow> TruncateTopWords c' n = Inr c'"
  by (auto simp: TruncateTopWords_eq split: if_splits)

text \<open>The second variant agrees with the first for \<open>0 < n \<le> len(MostUsed)\<close> only.\<close>

lemma TruncateTopWords2_agrees:
  "0 < n \<Longrightarrow> n \<le> int (length (MostUsed c)) \<Longrightarrow>
   TruncateTopWords2 c n = TruncateTopWords c n"
  by (auto simp: TruncateTopWords_eq TruncateTopWords2_eq)

lemma MostUsed_length_Unique:
  assumes "NewConcordance scanner cs 0 entries = Inr c" "range_order (Counts c) entries"
  shows "int (length (MostUsed c)) = Unique c"
proof -
  have "MostUsed c = sort_Sort (sort_Reverse ByCount_Less) (map tuple_of entries)"
    using NewConcordance_fields(5)[OF assms(1)] by (simp add: Let_def)
  then have "int (length (MostUsed c)) = int (length entries)" by (simp add: length_sort_Sort)
  also have "\<dots> = Unique c"
    using range_order_length(1)[OF assms(2)] NewConcordance_fields(2)[OF assms(1)] by simp
  finally show ?thesis .
qed

lemma NewConcordance2_agrees:
  assumes "NewConcordance scanner cs 0 entries = Inr c" "range_order (Counts c) entries"
    "0 < n" "n \<le> Unique c"
  shows "NewConcordance2 scanner cs n entries = NewConcordance scanner cs n entries"
proof -
  have "n \<le> int (length (MostUsed c))"
    using MostUsed_length_Unique[OF assms(1,2)] assms(4) by simp
  with assms(1,3) show ?thesis
    by (simp add: NewConcordance_via_all[of scanner cs n] NewConcordance2_via_all[of scanner cs n]
        TruncateTopWords2_agrees)
qed

lemma NewConcordance2_panics:
  assumes "NewConcordance scanner cs 0 entries = Inr c" "range_order (Counts c) entries"
    "n < 0 \<or> Unique c < n"
  shows "NewConcordance2 scanner cs n entries = Inl SliceBoundsOutOfRange"
proof -
  have "n < 0 \<or> int (length (MostUsed c)) < n"
    using MostUsed_length_Unique[OF assms(1,2)] assms(3) by simp
  with assms(1) show ?thesis
    by (auto simp: NewConcordance2_via_all[of scanner cs n] TruncateTopWords2_eq)
qed

text \<open>
  Where the second variant returns, the first returns too, and the two concordances
  have the same \<open>Counts\<close>, \<open>Total\<close>, \<open>Unique\<close> and \<open>LengthHistogram\<close>.
\<close>

lemma NewConcordance2_Inr:
  assumes "NewConcordance2 scanner cs n entries = Inr c2"
  shows "\<exists>c. NewConcordance scanner cs n entries = Inr c \<and> Counts c2 = Counts c \<and>
           Total c2 = Total c \<and> Unique c2 = Unique c \<and>
           LengthHistogram c2 = LengthHistogram c"
proof -
  from assms obtain c0 where
    c0: "NewConcordance scanner cs 0 entries = Inr c0" and t: "TruncateTopWords2 c0 n = Inr c2"
    by (auto simp: NewConcordance2_via_all[of scanner cs n] split: sum.splits)
  from t have "c2 = c0\<lparr>MostUsed := take (nat n) (MostUsed c0)\<rparr>"
    by (auto simp: TruncateTopWords2_eq split: if_splits)
  then show ?thesis
    by (simp add: NewConcordance_via_all[of scanner cs n] c0 TruncateTopWords_eq)
qed

section \<open>Concrete runs\<close>

lemma WordCount_b: "WordCount corpus_b False = Inr ([''aa'' \<mapsto> 1, ''b'' \<mapsto> 2], 4)"
  by (simp add: corpus_b_def eval_WordCount)

lemma trim_code_b:
  "trimHist_loop (stepHist (stepHist (replicate 64 0) (Suc (Suc 0))) (Suc 0)) 0 0 = 2"
  by code_simp

lemma take_code_b:
  "take 3 (stepHist (stepHist (replicate 64 0) (Suc (Suc 0))) (Suc 0)) = [0, 1, 1]"
  by code_simp

lemma process_b:
  "process entries_b \<lparr>Counts = [''aa'' \<mapsto> 1, ''b'' \<mapsto> 2], Total = 4, Unique = 2,
      MostUsed = [], LengthHistogram = []\<rparr> = Inr concordance_b"
  by (simp add: entries_b_def concordance_b_def process_def process_step_stepHist
      length_stepHist trimHist_def sliceTo_def sort_Sort_def sort_Reverse_def ByCount_Less_def
      trim_code_b take_code_b)

lemma NewConcordance_b: "NewConcordance corpus_b False 0 entries_b = Inr concordance_b"
proof -
  have "int (card (dom [''aa'' \<mapsto> 1::int, ''b'' \<mapsto> 2])) = 2" by simp
  then show ?thesis
    by (simp add: NewConcordance_def WordCount_b process_b TruncateTopWords_eq)
qed

lemma range_order_b: "range_order (Counts concordance_b) entries_b"
  by (auto simp: range_order_def concordance_b_def entries_b_def)

theorem histogram_sum_is_Unique_witness:
  "NewConcordance corpus_b False 0 entries_b = Inr concordance_b \<and>
   range_order (Counts concordance_b) entries_b \<and>
   sum_list (LengthHistogram concordance_b) = Unique concordance_b \<and>
   Unique concordance_b = 2"
  using histogram_sum_is_Unique[OF NewConcordance_b range_order_b] NewConcordance_b
    range_order_b
  by (simp add: concordance_b_def)

theorem MostUsed_sorted_by_count_witness:
  "NewConcordance corpus_b False 0 entries_b = Inr concordance_b \<and>
   0 + 1 < length (MostUsed concordance_b) \<and>
   Count (MostUsed concordance_b ! (0 + 1)) \<le> Count (MostUsed concordance_b ! 0)"
proof -
  have l: "0 + 1 < length (MostUsed concordance_b)" by (simp add: concordance_b_def)
  from MostUsed_sorted_by_count[OF NewConcordance_b] l
  have "Count (MostUsed concordance_b ! (0 + 1)) \<le> Count (MostUsed concordance_b ! 0)"
    by blast
  with l NewConcordance_b show ?thesis by blast
qed

theorem trimmed_histogram_has_no_trailing_zero_witness:
  "process entries_b \<lparr>Counts = [''aa'' \<mapsto> 1, ''b'' \<mapsto> 2], Total = 4, Unique = 2,
      MostUsed = [], LengthHistogram = []\<rparr> = Inr concordance_b \<and>
   LengthHistogram concordance_b = [0, 1, 1] \<and>
   (\<exists>c1 zs. process_loop entries_b
        \<lparr>Counts = [''aa'' \<mapsto> 1, ''b'' \<mapsto> 2], Total = 4, Unique = 2,
         MostUsed = [], LengthHistogram = replicate 64 0\<rparr> = Inr c1 \<and>
      LengthHistogram c1 = [0, 1, 1] @ zs \<and> (\<forall>z\<in>set zs. z = 0)) \<and>
   last (LengthHistogram concordance_b) \<noteq> 0"
proof -
  have h: "LengthHistogram concordance_b = [0, 1, 1]" by (simp add: concordance_b_def)
  from trimmed_histogram_has_no_trailing_zero[OF process_b] obtain c1 zs where
    "process_loop entries_b
        (\<lparr>Counts = [''aa'' \<mapsto> 1, ''b'' \<mapsto> 2], Total = 4, Unique = 2,
          MostUsed = [], LengthHistogram = []\<rparr>
         \<lparr>LengthHistogram := replicate 64 0, MostUsed := []\<rparr>) = Inr c1"
    "LengthHistogram c1 = LengthHistogram concordance_b @ zs" "\<forall>z\<in>set zs. z = 0"
    by blast
  then have "\<exists>c1 zs. process_loop entries_b
        \<lparr>Counts = [''aa'' \<mapsto> 1, ''b'' \<mapsto> 2], Total = 4, Unique = 2,
         MostUsed = [], LengthHistogram = replicate 64 0\<rparr> = Inr c1 \<and>
      LengthHistogram c1 = [0, 1, 1] @ zs \<and> (\<forall>z\<in>set zs. z = 0)"
    unfolding h by auto
  with process_b h show ?thesis by simp
qed

text \<open>
  C1 holds for the first variant (\<open>TruncateTopWords_noop\<close>, \<open>TruncateTopWords_idem\<close>) and
  fails for the second, whose \<open>TruncateTopWords\<close> reslices without a test. On the
  concordance of the small corpus, which has two entries in \<open>MostUsed\<close>, the second
  variant empties \<open>MostUsed\<close> for \<open>n = 0\<close> and panics for \<open>n = -1\<close> and for \<open>n = 3\<close>, where the
  first variant returns the concordance as it is.
\<close>

theorem TruncateTopWords2_is_no_noop:
  "TruncateTopWords2 concordance_b 0 = Inr (concordance_b\<lparr>MostUsed := []\<rparr>) \<and>
   TruncateTopWords2 concordance_b 0 \<noteq> Inr concordance_b \<and>
   TruncateTopWords2 concordance_b (- 1) = Inl SliceBoundsOutOfRange \<and>
   TruncateTopWords2 concordance_b 3 = Inl SliceBoundsOutOfRange \<and>
   TruncateTopWords concordance_b 0 = Inr concordance_b \<and>
   TruncateTopWords concordance_b (- 1) = Inr concordance_b \<and>
   TruncateTopWords concordance_b 3 = Inr concordance_b"
  by (simp add: TruncateTopWords2_eq TruncateTopWords_eq concordance_b_def)

text \<open>
  C10 fails: the two variants of \<open>NewConcordance\<close> differ on the small corpus. For
  \<open>topWords = 0\<close> the first returns both entries of \<open>MostUsed\<close> and the second returns
  none; for \<open>topWords = 3\<close>, more than the two distinct words, and for \<open>topWords = -1\<close> the
  first returns the concordance and the second panics. The variants agree when
  \<open>0 < topWords \<le> Unique\<close> (\<open>NewConcordance2_agrees\<close>).
\<close>

theorem variants_differ_on_topWords:
  "NewConcordance corpus_b False 0 entries_b = Inr concordance_b \<and>
   NewConcordance2 corpus_b False 0 entries_b = Inr (concordance_b\<lparr>MostUsed := []\<rparr>) \<and>
   NewConcordance2 corpus_b False 0 entries_b \<noteq> NewConcordance corpus_b False 0 entries_b \<and>
   NewConcordance corpus_b False 3 entries_b = Inr concordance_b \<and>
   NewConcordance2 corpus_b False 3 entries_b = Inl SliceBoundsOutOfRange \<and>
   NewConcordance corpus_b False (- 1) entries_b = Inr concordance_b \<and>
   NewConcordance2 corpus_b False (- 1) entries_b = Inl SliceBoundsOutOfRange \<and>
   range_order (Counts concordance_b) entries_b"
proof -
  note a = NewConcordance_b
  have m: "MostUsed concordance_b = [\<lparr>Word = ''b'', Count = 2\<rparr>, \<lparr>Word = ''aa'', Count = 1\<rparr>]"
    by (simp add: concordance_b_def)
  have b: "NewConcordance2 corpus_b False 0 entries_b = Inr (concordance_b\<lparr>MostUsed := []\<rparr>)"
    by (simp add: NewConcordance2_via_all[of _ _ 0] a TruncateTopWords2_eq)
  have ne: "concordance_b\<lparr>MostUsed := []\<rparr> \<noteq> concordance_b"
    by (simp add: concordance_b_def)
  have c: "NewConcordance corpus_b False 3 entries_b = Inr concordance_b"
    by (simp add: NewConcordance_via_all[of _ _ 3] a TruncateTopWords_eq m)
  have d: "NewConcordance2 corpus_b False 3 entries_b = Inl SliceBoundsOutOfRange"
    by (simp add: NewConcordance2_via_all[of _ _ 3] a TruncateTopWords2_eq m)
  have e: "NewConcordance corpus_b False (- 1) entries_b = Inr concordance_b"
    by (simp add: NewConcordance_via_all[of _ _ "- 1"] a TruncateTopWords_eq)
  have f: "NewConcordance2 corpus_b False (- 1) entries_b = Inl SliceBoundsOutOfRange"
    by (simp add: NewConcordance2_via_all[of _ _ "- 1"] a TruncateTopWords2_eq)
  from a b ne c d e f range_order_b show ?thesis by simp
qed

section \<open>Long words\<close>

lemma trim_replicate_alpha:
  "alphaChar x \<Longrightarrow> trim (replicate n x) = replicate n x"
  by (simp add: trim_def dropWhile_replicate)

lemma alphaChar_a: "alphaChar CHR ''a''"
  by (simp add: alphaChar_def inRange_def)

lemma WordCount_long:
  "0 < n \<Longrightarrow> WordCount [replicate n CHR ''a''] True = Inr ([replicate n CHR ''a'' \<mapsto> 1], 1)"
  by (auto simp: WordCount_eq word_of_def trim_replicate_alpha alphaChar_a incr_def)

text \<open>
  The new histogram has twice the slots of the old one, whatever \<open>newlen\<close> is: a word at
  least twice as long as the histogram makes the increment panic.
\<close>

lemma process_step_panics:
  assumes "0 < length (LengthHistogram c)" "2 * length (LengthHistogram c) \<le> length k"
  shows "process_step c (k, v) = Inl IndexOutOfRange"
  using process_step_stepHist[OF assms(1), of k v] assms(2) by simp

text \<open>Whether a long word panics depends on the order of the visit.\<close>

lemma growth_depends_on_order:
  "(\<exists>c'. process_loop [(replicate 70 CHR ''a'', 1), (replicate 130 CHR ''a'', 1)]
          (c\<lparr>LengthHistogram := replicate 64 0, MostUsed := []\<rparr>) = Inr c') \<and>
   process_loop [(replicate 130 CHR ''a'', 1), (replicate 70 CHR ''a'', 1)]
          (c\<lparr>LengthHistogram := replicate 64 0, MostUsed := []\<rparr>) = Inl IndexOutOfRange"
  by (simp add: process_step_stepHist length_stepHist)

text \<open>
  C2 fails on the code. The corpus of one token of 128 letters has one word of length
  128. The histogram has 64 slots, so it is resized: \<open>newlen\<close> is computed as 128 and not
  used, the new histogram has \<open>2 * 64 = 128\<close> slots, and the increment of the slot at
  index 128 is out of range. Both variants of the library panic.
\<close>

theorem histogram_growth_panics_at_128:
  "WordCount [replicate 128 CHR ''a''] True = Inr ([replicate 128 CHR ''a'' \<mapsto> 1], 1) \<and>
   range_order [replicate 128 CHR ''a'' \<mapsto> 1] [(replicate 128 CHR ''a'', 1)] \<and>
   newlen_loop (2 * 64) 128 = Some 128 \<and>
   NewConcordance [replicate 128 CHR ''a''] True 0 [(replicate 128 CHR ''a'', 1)]
     = Inl IndexOutOfRange \<and>
   NewConcordance2 [replicate 128 CHR ''a''] True 1 [(replicate 128 CHR ''a'', 1)]
     = Inl IndexOutOfRange"
proof -
  let ?s = "replicate 128 CHR ''a''"
  have w: "WordCount [?s] True = Inr ([?s \<mapsto> 1], 1)" by (rule WordCount_long) simp
  have r: "range_order [?s \<mapsto> 1] [(?s, 1)]" by (simp add: range_order_def)
  have l: "newlen_loop (2 * 64) 128 = Some 128" by (subst newlen_loop.simps) simp
  have p: "process [(?s, 1)] c = Inl IndexOutOfRange" if "0 \<le> Unique c" for c
    using that by (simp add: process_def process_step_panics)
  have n: "NewConcordance [?s] True 0 [(?s, 1)] = Inl IndexOutOfRange"
    by (simp add: NewConcordance_def w p)
  have n2: "NewConcordance2 [?s] True 1 [(?s, 1)] = Inl IndexOutOfRange"
    by (simp add: NewConcordance2_def w p)
  from w r l n n2 show ?thesis by blast
qed

lemma long70_facts: "length long70 = 70" "long70 \<noteq> ''a''" "long70 \<noteq> ''''"
  "trim long70 = long70" "trim ''a'' = ''a''"
proof -
  show l: "length long70 = 70" by (simp add: long70_def)
  show "long70 \<noteq> ''a''"
  proof
    assume "long70 = ''a''"
    then have "length long70 = length ''a''" by (rule arg_cong)
    with l show False by simp
  qed
  from l show "long70 \<noteq> ''''" by auto
  show "trim long70 = long70" unfolding long70_def by (rule trim_replicate_alpha[OF alphaChar_a])
  show "trim ''a'' = ''a''" using trim_replicate_alpha[OF alphaChar_a, of 1] by simp
qed

lemma WordCount_70: "WordCount [''a'', long70] True = Inr ([''a'' \<mapsto> 1, long70 \<mapsto> 1], 2)"
  using long70_facts(2,3) by (auto simp: WordCount_eq word_of_def long70_facts(4,5) incr_def)

lemma range_order_70: "range_order [''a'' \<mapsto> 1, long70 \<mapsto> 1] [(long70, 1), (''a'', 1)]"
  using long70_facts(2) by (auto simp: range_order_def)

theorem histogram_grows_for_length_70_witness:
  "WordCount [''a'', long70] True = Inr ([''a'' \<mapsto> 1, long70 \<mapsto> 1], 2) \<and>
   range_order [''a'' \<mapsto> 1, long70 \<mapsto> 1] [(long70, 1), (''a'', 1)] \<and>
   scrubbed True long70 = Inr long70 \<and> length long70 = 70 \<and>
   scrubbed True ''a'' = Inr ''a'' \<and>
   (\<exists>c. NewConcordance [''a'', long70] True 0 [(long70, 1), (''a'', 1)] = Inr c \<and>
        71 \<le> length (LengthHistogram c) \<and> 1 \<le> LengthHistogram c ! 70)"
proof -
  have s1: "scrubbed True long70 = Inr long70"
    by (simp add: scrubbed_word_of word_of_def long70_facts)
  have s2: "scrubbed True ''a'' = Inr ''a''"
    by (simp add: scrubbed_word_of word_of_def long70_facts)
  have h3: "\<exists>token\<in>set [''a'', long70]. \<exists>w. scrubbed True token = Inr w \<and> length w = 70"
    using s1 long70_facts(1) by simp
  have h4: "\<forall>token\<in>set [''a'', long70]. \<forall>w. scrubbed True token = Inr w \<longrightarrow>
      length w < 64 \<or> length w = 70"
    using s1 s2 long70_facts(1) by auto
  from histogram_grows_for_length_70[OF WordCount_70 range_order_70 h3 h4, of 0]
    WordCount_70 range_order_70 s1 s2 long70_facts(1)
  show ?thesis by blast
qed

end
